theory Spec2Isabelle
  imports Complex_Main "HOL-Library.Word"
begin

unbundle bit_operations_syntax

section \<open>JavaScript numbers\<close>

text \<open>
  A JavaScript number is an IEEE 754 binary64 value: NaN, one of the two infinities, or
  a finite value, modelled by the real it stands for. An arithmetic operation returns the
  exact result rounded to the nearest binary64 value, ties to even, with gradual
  underflow, and an infinity when the rounded result is out of range; storing a number
  into a \<open>Float32Array\<close> rounds it to binary32 in the same way.

  \<open>round_float p emin emax r\<close> rounds the real \<open>r\<close> to the format with \<open>p\<close>
  significant bits, smallest normal exponent \<open>emin\<close> and values below \<open>2 ^ emax\<close>:
  \<open>e\<close> is the exponent of \<open>r\<close> (\<open>emin\<close> for a subnormal), \<open>u\<close> the distance
  between neighbouring values of the format there, \<open>v\<close> the multiple of \<open>u\<close> nearest
  to \<open>r\<close>.

  The sign of zero is not modelled: \<open>Fin 0\<close> stands for both zeros. The
  comparisons, \<open>Math.exp\<close> and \<open>Math.log\<close> give the same result for both, and the
  one divisor below, \<open>sumMasked\<close>, is a sum that starts from the literal \<open>0\<close>, which
  is never the negative zero.
\<close>

datatype jsnum = NaN | NInf | Fin real | PInf

definition round_half_even :: "real \<Rightarrow> int" where
  "round_half_even q =
     (let f = \<lfloor>q\<rfloor>; d = q - of_int f
      in if d < 1 / 2 then f else if 1 / 2 < d then f + 1 else if even f then f else f + 1)"

definition round_float :: "nat \<Rightarrow> int \<Rightarrow> nat \<Rightarrow> real \<Rightarrow> jsnum" where
  "round_float p emin emax r =
     (if r = 0 then Fin 0
      else (let e = max \<lfloor>log 2 \<bar>r\<bar>\<rfloor> emin;
                u = 2 powr of_int (e - int p + 1);
                v = of_int (round_half_even (r / u)) * u
            in if 2 ^ emax \<le> \<bar>v\<bar> then (if 0 < r then PInf else NInf) else Fin v))"

definition binary64 :: "real \<Rightarrow> jsnum" where
  "binary64 = round_float 53 (- 1022) 1024"

definition binary32 :: "real \<Rightarrow> jsnum" where
  "binary32 = round_float 24 (- 126) 128"

fun js_gt :: "jsnum \<Rightarrow> jsnum \<Rightarrow> bool" where
  "js_gt NaN _ = False"
| "js_gt _ NaN = False"
| "js_gt NInf _ = False"
| "js_gt (Fin x) NInf = True"
| "js_gt (Fin x) (Fin y) = (x > y)"
| "js_gt (Fin x) PInf = False"
| "js_gt PInf PInf = False"
| "js_gt PInf _ = True"

fun js_add :: "jsnum \<Rightarrow> jsnum \<Rightarrow> jsnum" where
  "js_add NaN _ = NaN"
| "js_add _ NaN = NaN"
| "js_add (Fin x) (Fin y) = binary64 (x + y)"
| "js_add PInf NInf = NaN"
| "js_add NInf PInf = NaN"
| "js_add PInf _ = PInf"
| "js_add _ PInf = PInf"
| "js_add NInf _ = NInf"
| "js_add _ NInf = NInf"

fun js_neg :: "jsnum \<Rightarrow> jsnum" where
  "js_neg NaN = NaN"
| "js_neg NInf = PInf"
| "js_neg (Fin x) = Fin (- x)"
| "js_neg PInf = NInf"

definition js_sub :: "jsnum \<Rightarrow> jsnum \<Rightarrow> jsnum" where
  "js_sub a b = js_add a (js_neg b)"

text \<open>Division, for a dividend and a divisor that are not negative zero.\<close>

fun js_div :: "jsnum \<Rightarrow> jsnum \<Rightarrow> jsnum" where
  "js_div NaN _ = NaN"
| "js_div _ NaN = NaN"
| "js_div (Fin x) (Fin y) =
     (if y = 0 then (if x = 0 then NaN else if x > 0 then PInf else NInf)
      else binary64 (x / y))"
| "js_div (Fin x) _ = Fin 0"
| "js_div PInf (Fin y) = (if y < 0 then NInf else PInf)"
| "js_div NInf (Fin y) = (if y < 0 then PInf else NInf)"
| "js_div _ _ = NaN"

text \<open>
  \<open>Math.exp\<close> and \<open>Math.log\<close> are functions of the platform. ECMAScript fixes their
  results at NaN, the infinities, the zeros and, for \<open>Math.log\<close>, at 1 and below 0;
  everywhere else the result is an approximation the implementation chooses. The two
  approximations are therefore a parameter, and \<open>js_exp\<close> and \<open>js_log\<close> add the
  fixed cases.
\<close>

record mathlib =
  Math_exp :: "real \<Rightarrow> jsnum"
  Math_log :: "real \<Rightarrow> jsnum"

fun js_exp :: "mathlib \<Rightarrow> jsnum \<Rightarrow> jsnum" where
  "js_exp m NaN = NaN"
| "js_exp m NInf = Fin 0"
| "js_exp m (Fin x) = (if x = 0 then Fin 1 else Math_exp m x)"
| "js_exp m PInf = PInf"

fun js_log :: "mathlib \<Rightarrow> jsnum \<Rightarrow> jsnum" where
  "js_log m NaN = NaN"
| "js_log m NInf = NaN"
| "js_log m (Fin x) =
     (if x < 0 then NaN else if x = 0 then NInf else if x = 1 then Fin 0 else Math_log m x)"
| "js_log m PInf = PInf"

text \<open>Storing a number into an element of a \<open>Float32Array\<close>.\<close>

fun store32 :: "jsnum \<Rightarrow> jsnum" where
  "store32 (Fin x) = binary32 x"
| "store32 v = v"

section \<open>Sessions (\<open>MlcAiSequence\<close>) and the engine\<close>

text \<open>
  Objects live in a store and are named by references. A session holds a reference to
  its \<open>_tokens\<close> array and, when it has logits, a handle of an \<open>NDArray\<close> of the
  pipeline. The engine's field \<open>_window_ai_seq\<close> names the session that claims the
  KV cache. The fields \<open>_tokens\<close>, \<open>_promptSize\<close>, \<open>_logits\<close> and
  \<open>_options.messages\<close> of a session are \<open>s_tokens\<close>, \<open>s_promptSize\<close>,
  \<open>s_logits\<close> and \<open>s_messages\<close>.

  The methods are asynchronous in the source. A call is one step here: the calls of a
  run are awaited one after the other.
\<close>

type_synonym ref = nat
type_synonym AITokenId = int

datatype AIAssistantPromptRole = System | User | Assistant

type_synonym AIAssistantPrompt = "AIAssistantPromptRole \<times> string"

datatype dtype = Float32 | OtherDtype

record NDArray =
  nd_dtype :: dtype
  nd_data :: "jsnum list"

record AISamplingOptions =
  temperature :: "jsnum option"
  samplingMask :: "32 word list option"

record MlcAiSequence =
  s_tokens :: ref
  s_promptSize :: int
  s_logits :: "ref option"
  s_messages :: "AIAssistantPrompt list"

text \<open>
  The errors, one for each message the code throws. \<open>PipelineFailure\<close> is an
  exception of the pipeline that passes through a method, \<open>DisposedNDArray\<close> the
  refusal of tvmjs to read an array that was disposed of. \<open>NoSuchObject\<close> stands for
  a reference that names no object, which no JavaScript caller can hold.
\<close>

datatype error =
    PromptSizeNotInitialized
  | CantGetLogits
  | CannotAdvanceDifferent
  | BacktrackingNotImplemented
  | NotImplemented
  | NoLogits
  | NotAFloat32Array
  | PipelineFailure
  | DisposedNDArray
  | NoSuchObject
  | InvalidToken nat
  | TokenTooLong nat

text \<open>
  The pipeline is an external collaborator: its operations are parameters, acting on a
  hidden state of type \<open>'p\<close>. A call either throws or returns.
\<close>

datatype 'a outcome = Threw | Returned 'a

record 'p pipeline =
  prefill :: "AIAssistantPrompt list \<Rightarrow> 'p \<Rightarrow> NDArray option outcome \<times> 'p"
  filledKVCacheLength :: "'p \<Rightarrow> int"
  forwardTokens :: "AITokenId list \<Rightarrow> 'p \<Rightarrow> NDArray outcome \<times> 'p"
  sampleTokenFromLogits ::
    "NDArray \<Rightarrow> jsnum option \<Rightarrow> 32 word list option \<Rightarrow> 'p \<Rightarrow> AITokenId outcome \<times> 'p"
  context_window_size :: int

record 'p world =
  next_ref :: ref
  arrays :: "ref \<rightharpoonup> AITokenId list"
  ndarrays :: "ref \<rightharpoonup> NDArray"
  seqs :: "ref \<rightharpoonup> MlcAiSequence"
  window_ai_seq :: "ref option"
  lowLevel :: bool
  pipe :: "'p"

definition init_world :: "'p \<Rightarrow> 'p world" where
  "init_world p =
     \<lparr>next_ref = 0, arrays = Map.empty, ndarrays = Map.empty, seqs = Map.empty,
      window_ai_seq = None, lowLevel = False, pipe = p\<rparr>"

text \<open>\<open>this._logits?.dispose()\<close>: the handle, when there is one, stops being live.\<close>

definition dispose :: "ref option \<Rightarrow> 'p world \<Rightarrow> 'p world" where
  "dispose h w = (case h of None \<Rightarrow> w | Some r \<Rightarrow> w\<lparr>ndarrays := (ndarrays w)(r := None)\<rparr>)"

text \<open>An \<open>NDArray\<close> the pipeline returns is a new object.\<close>

definition new_ndarray :: "NDArray \<Rightarrow> 'p world \<Rightarrow> ref \<times> 'p world" where
  "new_ndarray nd w =
     (next_ref w, w\<lparr>next_ref := Suc (next_ref w), ndarrays := (ndarrays w)(next_ref w \<mapsto> nd)\<rparr>)"

definition set_seq :: "ref \<Rightarrow> MlcAiSequence \<Rightarrow> 'p world \<Rightarrow> 'p world" where
  "set_seq this s w = w\<lparr>seqs := (seqs w)(this \<mapsto> s)\<rparr>"

text \<open>\<open>createSequence\<close> and the constructor: a new session with a new, empty array.\<close>

definition createSequence :: "AIAssistantPrompt list \<Rightarrow> 'p world \<Rightarrow> ref \<times> 'p world" where
  "createSequence msgs w =
     (let a = next_ref w; this = Suc a
      in (this,
          w\<lparr>next_ref := Suc this,
            arrays := (arrays w)(a \<mapsto> []),
            seqs := (seqs w)(this \<mapsto>
              \<lparr>s_tokens = a, s_promptSize = 0, s_logits = None, s_messages = msgs\<rparr>)\<rparr>))"

text \<open>
  The first branch of \<open>advance\<close>, taken when \<open>_promptSize\<close> is 0: claim the engine,
  mark the prompt size, run the prefill, keep its logits.
\<close>

definition prime ::
  "'p pipeline \<Rightarrow> ref \<Rightarrow> MlcAiSequence \<Rightarrow> 'p world \<Rightarrow> (error + unit) \<times> 'p world" where
  "prime pl this s w =
     (let s1 = s\<lparr>s_promptSize := - 1\<rparr>;
          w1 = (set_seq this s1 w)\<lparr>window_ai_seq := Some this, lowLevel := True\<rparr>
      in case prefill pl (s_messages s) (pipe w1) of
           (Threw, p) \<Rightarrow> (Inl PipelineFailure, w1\<lparr>pipe := p\<rparr>)
         | (Returned None, p) \<Rightarrow> (Inl CantGetLogits, w1\<lparr>pipe := p\<rparr>)
         | (Returned (Some nd), p) \<Rightarrow>
             (let (r, w2) = new_ndarray nd (w1\<lparr>pipe := p\<rparr>);
                  s2 = s1\<lparr>s_promptSize := filledKVCacheLength pl p\<rparr>;
                  w3 = dispose (s_logits s2) w2
              in (Inr (), set_seq this (s2\<lparr>s_logits := Some r\<rparr>) w3)))"

text \<open>
  \<open>this._tokens.splice(-backtrack, backtrack)\<close> for a positive integer \<open>backtrack\<close>:
  the last \<open>backtrack\<close> elements go, all of them when there are fewer.
\<close>

definition splice_last :: "int \<Rightarrow> AITokenId list \<Rightarrow> AITokenId list" where
  "splice_last backtrack ts =
     (if int (length ts) \<le> backtrack then [] else take (length ts - nat backtrack) ts)"

definition update_array ::
  "ref \<Rightarrow> (AITokenId list \<Rightarrow> AITokenId list) \<Rightarrow> 'p world \<Rightarrow> 'p world" where
  "update_array a f w = w\<lparr>arrays := (arrays w)(a := map_option f (arrays w a))\<rparr>"

text \<open>
  The last branch of \<open>advance\<close>: push the tokens, dispose of the logits, forward the
  tokens. When the pipeline throws, \<open>_logits\<close> still names the disposed array.
\<close>

definition append_forward ::
  "'p pipeline \<Rightarrow> ref \<Rightarrow> MlcAiSequence \<Rightarrow> AITokenId list \<Rightarrow> 'p world \<Rightarrow>
     (error + unit) \<times> 'p world" where
  "append_forward pl this s appendTokens w =
     (let w1 = update_array (s_tokens s) (\<lambda>ts. ts @ appendTokens) w;
          w2 = dispose (s_logits s) w1
      in case forwardTokens pl appendTokens (pipe w2) of
           (Threw, p) \<Rightarrow> (Inl PipelineFailure, w2\<lparr>pipe := p\<rparr>)
         | (Returned nd, p) \<Rightarrow>
             (let (r, w3) = new_ndarray nd (w2\<lparr>pipe := p\<rparr>)
              in (Inr (), set_seq this (s\<lparr>s_logits := Some r\<rparr>) w3)))"

definition advance ::
  "'p pipeline \<Rightarrow> ref \<Rightarrow> AITokenId list \<Rightarrow> int \<Rightarrow> 'p world \<Rightarrow> (error + unit) \<times> 'p world" where
  "advance pl this appendTokens backtrack w =
     (case seqs w this of
        None \<Rightarrow> (Inl NoSuchObject, w)
      | Some s \<Rightarrow>
          (case (if s_promptSize s = 0 then prime pl this s w
                 else if window_ai_seq w \<noteq> Some this then (Inl CannotAdvanceDifferent, w)
                 else (Inr (), w)) of
             (Inl e, w1) \<Rightarrow> (Inl e, w1)
           | (Inr _, w1) \<Rightarrow>
               (case seqs w1 this of
                  None \<Rightarrow> (Inl NoSuchObject, w1)
                | Some s1 \<Rightarrow>
                    if backtrack > 0
                    then (Inl BacktrackingNotImplemented,
                          update_array (s_tokens s1) (splice_last backtrack) w1)
                    else if appendTokens \<noteq> []
                    then append_forward pl this s1 appendTokens w1
                    else (Inr (), w1))))"

definition clone :: "ref \<Rightarrow> 'p world \<Rightarrow> (error + ref) \<times> 'p world" where
  "clone this w = (Inl NotImplemented, w)"

text \<open>
  \<open>logits()\<close>: no logits is an error; \<open>toArray\<close> copies a live array out (a disposed
  one cannot be read), and only a \<open>Float32Array\<close> is returned.
\<close>

definition logits :: "ref \<Rightarrow> 'p world \<Rightarrow> (error + jsnum list) \<times> 'p world" where
  "logits this w =
     (case seqs w this of
        None \<Rightarrow> (Inl NoSuchObject, w)
      | Some s \<Rightarrow>
          (case s_logits s of
             None \<Rightarrow> (Inl NoLogits, w)
           | Some r \<Rightarrow>
               (case ndarrays w r of
                  None \<Rightarrow> (Inl DisposedNDArray, w)
                | Some nd \<Rightarrow>
                    if nd_dtype nd = Float32 then (Inr (nd_data nd), w)
                    else (Inl NotAFloat32Array, w))))"

text \<open>
  \<open>sample\<close>: the logits are copied into a scratch array, which the pipeline samples
  from; the scratch array lives inside the scope the call opens and closes.
\<close>

definition sample ::
  "'p pipeline \<Rightarrow> ref \<Rightarrow> AISamplingOptions option \<Rightarrow> 'p world \<Rightarrow>
     (error + AITokenId) \<times> 'p world" where
  "sample pl this options w =
     (case seqs w this of
        None \<Rightarrow> (Inl NoSuchObject, w)
      | Some s \<Rightarrow>
          (case s_logits s of
             None \<Rightarrow> (Inl NoLogits, w)
           | Some r \<Rightarrow>
               (case ndarrays w r of
                  None \<Rightarrow> (Inl DisposedNDArray, w)
                | Some nd \<Rightarrow>
                    (case sampleTokenFromLogits pl nd
                            (case options of None \<Rightarrow> None | Some opt \<Rightarrow> temperature opt)
                            (case options of None \<Rightarrow> None | Some opt \<Rightarrow> samplingMask opt)
                            (pipe w) of
                       (Threw, p) \<Rightarrow> (Inl PipelineFailure, w\<lparr>pipe := p\<rparr>)
                     | (Returned t, p) \<Rightarrow> (Inr t, w\<lparr>pipe := p\<rparr>)))))"

definition destroy :: "ref \<Rightarrow> 'p world \<Rightarrow> (error + unit) \<times> 'p world" where
  "destroy this w =
     (case seqs w this of
        None \<Rightarrow> (Inl NoSuchObject, w)
      | Some s \<Rightarrow>
          (let w1 = set_seq this (s\<lparr>s_logits := None\<rparr>) (dispose (s_logits s) w)
           in (Inr (),
               if window_ai_seq w1 = Some this then w1\<lparr>window_ai_seq := None\<rparr> else w1)))"

subsection \<open>The getters\<close>

definition promptSize :: "ref \<Rightarrow> 'p world \<Rightarrow> (error + int) \<times> 'p world" where
  "promptSize this w =
     (case seqs w this of
        None \<Rightarrow> (Inl NoSuchObject, w)
      | Some s \<Rightarrow>
          if s_promptSize s = 0 then (Inl PromptSizeNotInitialized, w)
          else (Inr (s_promptSize s), w))"

definition maxTokens :: "'p pipeline \<Rightarrow> ref \<Rightarrow> 'p world \<Rightarrow> (error + int) \<times> 'p world" where
  "maxTokens pl this w =
     (case seqs w this of
        None \<Rightarrow> (Inl NoSuchObject, w)
      | Some s \<Rightarrow> (Inr (context_window_size pl - s_promptSize s), w))"

definition tokensSoFar :: "ref \<Rightarrow> 'p world \<Rightarrow> (error + int) \<times> 'p world" where
  "tokensSoFar this w =
     (case seqs w this of
        None \<Rightarrow> (Inl NoSuchObject, w)
      | Some s \<Rightarrow>
          (case arrays w (s_tokens s) of
             None \<Rightarrow> (Inl NoSuchObject, w)
           | Some ts \<Rightarrow> (Inr (int (length ts)), w)))"

definition tokensLeft :: "'p pipeline \<Rightarrow> ref \<Rightarrow> 'p world \<Rightarrow> (error + int) \<times> 'p world" where
  "tokensLeft pl this w =
     (case maxTokens pl this w of
        (Inl e, w1) \<Rightarrow> (Inl e, w1)
      | (Inr m, w1) \<Rightarrow>
          (case tokensSoFar this w1 of
             (Inl e, w2) \<Rightarrow> (Inl e, w2)
           | (Inr n, w2) \<Rightarrow> (Inr (m - n), w2)))"

text \<open>\<open>tokens\<close>: \<open>this._tokens.slice()\<close> is a new array with the same elements.\<close>

definition tokens :: "ref \<Rightarrow> 'p world \<Rightarrow> (error + ref) \<times> 'p world" where
  "tokens this w =
     (case seqs w this of
        None \<Rightarrow> (Inl NoSuchObject, w)
      | Some s \<Rightarrow>
          (case arrays w (s_tokens s) of
             None \<Rightarrow> (Inl NoSuchObject, w)
           | Some ts \<Rightarrow>
               (Inr (next_ref w),
                w\<lparr>next_ref := Suc (next_ref w), arrays := (arrays w)(next_ref w \<mapsto> ts)\<rparr>)))"

section \<open>Probability utilities\<close>

text \<open>
  \<open>isAllowed\<close>: bit \<open>i & 31\<close> of the word \<open>i >>> 5\<close> of the mask; a word beyond the
  end of the mask is \<open>undefined\<close>, and \<open>undefined & x\<close> is 0. The methods test
  \<open>mask && !isAllowed(mask, i)\<close>: without a mask no index is masked out.

  The loops of \<open>logProbs\<close> and \<open>surprise\<close> run over the indices \<open>0 .. l.length - 1\<close> in
  order; each is a recursion over the list that carries the index and the variables the
  loop updates. \<open>logProbs_max\<close> is the first loop of \<open>logProbs\<close> (it overwrites the
  masked-out elements and finds the maximum), \<open>exp_sum\<close> the second, and the \<open>map\<close>
  in \<open>logProbs_of\<close> the third, which writes each difference back into the
  \<open>Float32Array\<close>. \<open>js_sum\<close> adds a list of numbers up from 0, in order.
\<close>

definition isAllowed :: "32 word list \<Rightarrow> nat \<Rightarrow> bool" where
  "isAllowed msk i =
     (if i div 32 < length msk then (msk ! (i div 32)) AND push_bit (i mod 32) 1 \<noteq> 0
      else False)"

definition masked_out :: "32 word list option \<Rightarrow> nat \<Rightarrow> bool" where
  "masked_out msk i = (case msk of None \<Rightarrow> False | Some m \<Rightarrow> \<not> isAllowed m i)"

fun logProbs_max ::
  "32 word list option \<Rightarrow> nat \<Rightarrow> jsnum list \<Rightarrow> jsnum \<Rightarrow> jsnum list \<times> jsnum" where
  "logProbs_max msk i [] mx = ([], mx)"
| "logProbs_max msk i (x # xs) mx =
     (let x' = (if masked_out msk i then NInf else x);
          mx' = (if js_gt x' mx then x' else mx);
          (ys, r) = logProbs_max msk (Suc i) xs mx'
      in (x' # ys, r))"

fun exp_sum :: "mathlib \<Rightarrow> jsnum \<Rightarrow> jsnum list \<Rightarrow> jsnum \<Rightarrow> jsnum" where
  "exp_sum m mx [] acc = acc"
| "exp_sum m mx (x # xs) acc = exp_sum m mx xs (js_add acc (js_exp m (js_sub x mx)))"

definition logProbs_of :: "mathlib \<Rightarrow> jsnum list \<Rightarrow> 32 word list option \<Rightarrow> jsnum list" where
  "logProbs_of m l msk =
     (let (l1, mx) = logProbs_max msk 0 l NInf;
          acc = exp_sum m mx l1 (Fin 0);
          logSum = js_add mx (js_log m acc)
      in map (\<lambda>x. store32 (js_sub x logSum)) l1)"

fun surprise_max :: "jsnum list \<Rightarrow> jsnum \<Rightarrow> jsnum" where
  "surprise_max [] mx = mx"
| "surprise_max (x # xs) mx = surprise_max xs (if js_gt x mx then x else mx)"

fun surprise_sums ::
  "mathlib \<Rightarrow> 32 word list option \<Rightarrow> jsnum \<Rightarrow> nat \<Rightarrow> jsnum list \<Rightarrow> jsnum \<times> jsnum \<Rightarrow>
   jsnum \<times> jsnum" where
  "surprise_sums m msk mx i [] r = r"
| "surprise_sums m msk mx i (x # xs) (sm, sumMasked) =
     surprise_sums m msk mx (Suc i) xs
       (js_add sm (js_exp m (js_sub x mx)),
        if masked_out msk i then js_add sumMasked (js_exp m (js_sub x mx)) else sumMasked)"

definition surprise_of :: "mathlib \<Rightarrow> jsnum list \<Rightarrow> 32 word list option \<Rightarrow> jsnum" where
  "surprise_of m l msk =
     (let mx = surprise_max l NInf;
          (sm, sumMasked) = surprise_sums m msk mx 0 l (Fin 0, Fin 0)
      in js_div sm sumMasked)"

definition js_sum :: "jsnum list \<Rightarrow> jsnum" where
  "js_sum xs = foldl js_add (Fin 0) xs"

text \<open>The methods read the logits of the session first.\<close>

definition logProbs ::
  "mathlib \<Rightarrow> ref \<Rightarrow> 32 word list option \<Rightarrow> 'p world \<Rightarrow> (error + jsnum list) \<times> 'p world" where
  "logProbs m this msk w =
     (case logits this w of
        (Inl e, w1) \<Rightarrow> (Inl e, w1)
      | (Inr l, w1) \<Rightarrow> (Inr (logProbs_of m l msk), w1))"

definition surprise ::
  "mathlib \<Rightarrow> ref \<Rightarrow> 32 word list option \<Rightarrow> 'p world \<Rightarrow> (error + jsnum) \<times> 'p world" where
  "surprise m this msk w =
     (case logits this w of
        (Inl e, w1) \<Rightarrow> (Inl e, w1)
      | (Inr l, w1) \<Rightarrow> (Inr (surprise_of m l msk), w1))"

text \<open>
  For the statements below: the elements of a list whose index satisfies a predicate
  (\<open>i\<close> is the index of the first element), and a list of finite logits after the
  masked-out ones were overwritten.
\<close>

fun pick :: "(nat \<Rightarrow> bool) \<Rightarrow> nat \<Rightarrow> 'a list \<Rightarrow> 'a list" where
  "pick P i [] = []"
| "pick P i (x # xs) = (if P i then x # pick P (Suc i) xs else pick P (Suc i) xs)"



text \<open>
  What the statements below ask of the platform's \<open>Math.exp\<close> and \<open>Math.log\<close>: where
  the exact function is positive (the exponential everywhere, here needed below 0; the
  logarithm above 1) the approximation is not negative, that is, a finite number that is
  at least 0, or \<open>+Infinity\<close>. \<open>rounded_math\<close> is the library that returns the exact
  value rounded to binary64.
\<close>

definition nonneg_or_inf :: "jsnum \<Rightarrow> bool" where
  "nonneg_or_inf v \<longleftrightarrow> v = PInf \<or> (\<exists>y\<ge>0. v = Fin y)"

definition ge1_or_inf :: "jsnum \<Rightarrow> bool" where
  "ge1_or_inf v \<longleftrightarrow> v = PInf \<or> (\<exists>y\<ge>1. v = Fin y)"

definition conforming :: "mathlib \<Rightarrow> bool" where
  "conforming m \<longleftrightarrow>
     (\<forall>x<0. nonneg_or_inf (Math_exp m x)) \<and> (\<forall>x>1. nonneg_or_inf (Math_log m x))"

definition rounded_math :: mathlib where
  "rounded_math = \<lparr>Math_exp = \<lambda>x. binary64 (exp x), Math_log = \<lambda>x. binary64 (ln x)\<rparr>"

section \<open>The bulk token metadata (\<open>AIModel.tokenInfo\<close>)\<close>

text \<open>
  A JavaScript string is a list of UTF-16 code units. \<open>lit\<close> turns an ASCII literal
  into one.
\<close>

type_synonym jsstring = "16 word list"

definition lit :: "string \<Rightarrow> jsstring" where
  "lit s = map (\<lambda>c. of_nat (of_char c)) s"

definition TOKENIZER_PREFIX :: jsstring where
  "TOKENIZER_PREFIX = [0x02]"

definition REPLACEMENT_CHARACTER :: "16 word" where
  "REPLACEMENT_CHARACTER = 0xFFFD"

definition startsWith :: "jsstring \<Rightarrow> jsstring \<Rightarrow> bool" where
  "startsWith s p = (take (length p) s = p)"

definition endsWith :: "jsstring \<Rightarrow> jsstring \<Rightarrow> bool" where
  "endsWith s p = (length p \<le> length s \<and> drop (length s - length p) s = p)"

definition includes_char :: "jsstring \<Rightarrow> 16 word \<Rightarrow> bool" where
  "includes_char s c = (c \<in> set s)"

definition isSpecialToken :: "jsstring \<Rightarrow> bool" where
  "isSpecialToken s =
     (s = lit ''<s>'' \<or> s = lit ''</s>'' \<or> s = lit ''<pad>'' \<or> s = lit ''<unk>'' \<or>
      (startsWith s (lit ''<|'') \<and> endsWith s (lit ''|>'')))"

text \<open>
  \<open>TextEncoder.encode\<close>: the UTF-8 bytes of a string of UTF-16 code units. A surrogate
  pair is one code point of four bytes; a surrogate that stands alone is encoded as
  U+FFFD.
\<close>

definition utf8_unit :: "16 word \<Rightarrow> 8 word list" where
  "utf8_unit u =
     (let c = unat u
      in if c < 0x80 then [of_nat c]
         else if c < 0x800 then [of_nat (0xC0 + c div 64), of_nat (0x80 + c mod 64)]
         else if 0xD800 \<le> c \<and> c < 0xE000 then [0xEF, 0xBF, 0xBD]
         else [of_nat (0xE0 + c div 4096), of_nat (0x80 + c div 64 mod 64),
               of_nat (0x80 + c mod 64)])"

definition utf8_pair :: "16 word \<Rightarrow> 16 word \<Rightarrow> 8 word list" where
  "utf8_pair u v =
     (let c = 0x10000 + (unat u - 0xD800) * 0x400 + (unat v - 0xDC00)
      in [of_nat (0xF0 + c div 262144), of_nat (0x80 + c div 4096 mod 64),
          of_nat (0x80 + c div 64 mod 64), of_nat (0x80 + c mod 64)])"

fun utf8_encode :: "jsstring \<Rightarrow> 8 word list" where
  "utf8_encode [] = []"
| "utf8_encode [u] = utf8_unit u"
| "utf8_encode (u # v # vs) =
     (if 0xD800 \<le> unat u \<and> unat u < 0xDC00 \<and> 0xDC00 \<le> unat v \<and> unat v < 0xE000
      then utf8_pair u v @ utf8_encode vs
      else utf8_unit u @ utf8_encode (v # vs))"

text \<open>
  \<open>parseInt(string, 16)\<close>: leading white space is skipped, then a sign, then \<open>0x\<close>
  or \<open>0X\<close>; the longest run of hexadecimal digits that follows is the value, \<open>NaN\<close>
  (here \<open>None\<close>) when the run is empty. The value is a Number: an integer beyond
  \<open>2^53\<close> is rounded to 53 significant bits. \<open>new Uint8Array([x])\<close> stores 0 for
  \<open>NaN\<close> and \<open>x\<close> modulo 256 otherwise.
\<close>

definition isWhiteSpace :: "16 word \<Rightarrow> bool" where
  "isWhiteSpace u =
     (unat u \<in> {0x09, 0x0A, 0x0B, 0x0C, 0x0D, 0x20, 0xA0, 0x1680, 0x2028, 0x2029, 0x202F,
                0x205F, 0x3000, 0xFEFF} \<or> (0x2000 \<le> unat u \<and> unat u \<le> 0x200A))"

definition hexDigit :: "16 word \<Rightarrow> nat option" where
  "hexDigit u =
     (let c = unat u
      in if 48 \<le> c \<and> c \<le> 57 then Some (c - 48)
         else if 97 \<le> c \<and> c \<le> 102 then Some (c - 87)
         else if 65 \<le> c \<and> c \<le> 70 then Some (c - 55)
         else None)"

fun hexDigits :: "jsstring \<Rightarrow> nat list" where
  "hexDigits [] = []"
| "hexDigits (u # us) = (case hexDigit u of None \<Rightarrow> [] | Some d \<Rightarrow> d # hexDigits us)"

fun bitlen :: "nat \<Rightarrow> nat" where
  "bitlen n = (if n = 0 then 0 else Suc (bitlen (n div 2)))"

definition round53 :: "nat \<Rightarrow> nat" where
  "round53 n =
     (let k = bitlen n - 53
      in if k = 0 then n
         else (let q = n div 2 ^ k; r = n mod 2 ^ k; h = 2 ^ (k - 1)
               in (if r > h \<or> (r = h \<and> odd q) then q + 1 else q) * 2 ^ k))"

definition parseInt16 :: "jsstring \<Rightarrow> int option" where
  "parseInt16 str =
     (let s = dropWhile isWhiteSpace str;
          negative = startsWith s (lit ''-'') \<and> s \<noteq> [];
          s1 = (if s \<noteq> [] \<and> (startsWith s (lit ''-'') \<or> startsWith s (lit ''+'')) then drop 1 s
                else s);
          s2 = (if 2 \<le> length s1 \<and> (startsWith s1 (lit ''0x'') \<or> startsWith s1 (lit ''0X''))
                then drop 2 s1 else s1);
          ds = hexDigits s2
      in if ds = [] then None
         else (let n = int (round53 (foldl (\<lambda>a d. 16 * a + d) 0 ds))
               in Some (if negative then - n else n)))"

definition toUint8 :: "int option \<Rightarrow> 8 word" where
  "toUint8 x = (case x of None \<Rightarrow> 0 | Some n \<Rightarrow> of_nat (nat (n mod 256)))"

text \<open>An element of an \<open>Int32Array\<close> made from a number.\<close>

definition toInt32 :: "int \<Rightarrow> int" where
  "toInt32 n = (n + 2 ^ 31) mod 2 ^ 32 - 2 ^ 31"

text \<open>The tokenizer is an external collaborator: its methods are parameters.\<close>

record tokenizer =
  getVocabSize :: nat
  encode :: "jsstring \<Rightarrow> int list"
  decode :: "int list \<Rightarrow> jsstring"
  idToToken :: "int \<Rightarrow> jsstring"

text \<open>
  \<open>pref[pref.length - 1]\<close>, as the element of the \<open>Int32Array\<close> it is put into:
  \<open>undefined\<close> becomes 0.
\<close>

definition tokPref :: "tokenizer \<Rightarrow> int" where
  "tokPref tok = (let pref = encode tok TOKENIZER_PREFIX in if pref = [] then 0 else last pref)"

text \<open>The string \<open>s\<close> of the loop body.\<close>

definition tokenText :: "tokenizer \<Rightarrow> nat \<Rightarrow> jsstring" where
  "tokenText tok i = drop 1 (decode tok [tokPref tok, toInt32 (int i)])"

text \<open>The loop body of \<open>tokenInfo\<close> up to the length check: \<open>isSpecial\<close> and \<open>bytes\<close>.\<close>

definition tokenEntry :: "tokenizer \<Rightarrow> nat \<Rightarrow> error + bool \<times> 8 word list" where
  "tokenEntry tok i =
     (let s = tokenText tok i
      in if includes_char s REPLACEMENT_CHARACTER
         then (let id = idToToken tok (int i)
               in if startsWith id (lit ''<0x'') then Inr (False, [toUint8 (parseInt16 (drop 3 id))])
                  else if id = s then Inr (False, utf8_encode s)
                  else Inl (InvalidToken i))
         else Inr (isSpecialToken s, utf8_encode s))"

function tokenInfo_loop :: "tokenizer \<Rightarrow> nat \<Rightarrow> nat \<Rightarrow> nat list \<Rightarrow> error + nat list" where
  "tokenInfo_loop tok nVocab i encodedTokenizer =
     (if i < nVocab
      then (case tokenEntry tok i of
              Inl e \<Rightarrow> Inl e
            | Inr (isSpecial, bytes) \<Rightarrow>
                if length bytes > 0xff then Inl (TokenTooLong i)
                else tokenInfo_loop tok nVocab (Suc i)
                       (encodedTokenizer @
                        [if isSpecial then 0x40 else 0, length bytes] @ map unat bytes))
      else Inr encodedTokenizer)"
  by pat_completeness auto
termination
  by (relation "measure (\<lambda>(tok, nVocab, i, e). nVocab - i)") auto

declare tokenInfo_loop.simps [simp del]

text \<open>\<open>new Uint8Array(encodedTokenizer)\<close> takes every number modulo 256.\<close>

definition tokenInfo :: "tokenizer \<Rightarrow> error + 8 word list" where
  "tokenInfo tok =
     (case tokenInfo_loop tok (getVocabSize tok) 0 [] of
        Inl e \<Rightarrow> Inl e
      | Inr encodedTokenizer \<Rightarrow> Inr (map of_nat encodedTokenizer))"

text \<open>
  For the statements below, what the loop body does with one token, read off its
  branches: whether it flags the token, the bytes of the token, the error the token
  raises, if any, and the record of the token in the output: the flags byte, the length
  byte, the bytes.
\<close>

definition token_flagged :: "tokenizer \<Rightarrow> nat \<Rightarrow> bool" where
  "token_flagged tok i \<longleftrightarrow>
     isSpecialToken (tokenText tok i) \<and> \<not> includes_char (tokenText tok i) REPLACEMENT_CHARACTER"

definition token_bytes :: "tokenizer \<Rightarrow> nat \<Rightarrow> 8 word list" where
  "token_bytes tok i =
     (if includes_char (tokenText tok i) REPLACEMENT_CHARACTER \<and>
         startsWith (idToToken tok (int i)) (lit ''<0x'')
      then [toUint8 (parseInt16 (drop 3 (idToToken tok (int i))))]
      else utf8_encode (tokenText tok i))"

definition token_error :: "tokenizer \<Rightarrow> nat \<Rightarrow> error option" where
  "token_error tok i =
     (if includes_char (tokenText tok i) REPLACEMENT_CHARACTER \<and>
         \<not> startsWith (idToToken tok (int i)) (lit ''<0x'') \<and>
         idToToken tok (int i) \<noteq> tokenText tok i
      then Some (InvalidToken i)
      else if 255 < length (token_bytes tok i) then Some (TokenTooLong i)
      else None)"

definition token_record :: "tokenizer \<Rightarrow> nat \<Rightarrow> 8 word list" where
  "token_record tok i =
     (if token_flagged tok i then 0x40 else 0) # of_nat (length (token_bytes tok i)) #
     token_bytes tok i"

text \<open>What a caller reads from the array that \<open>tokens\<close> returns.\<close>

definition read_tokens :: "ref \<Rightarrow> 'p world \<Rightarrow> error + AITokenId list" where
  "read_tokens this w =
     (case tokens this w of
        (Inl e, w1) \<Rightarrow> Inl e
      | (Inr a, w1) \<Rightarrow> (case arrays w1 a of None \<Rightarrow> Inl NoSuchObject | Some ts \<Rightarrow> Inr ts))"

section \<open>Runs and well-formed worlds\<close>

text \<open>
  A caller drives the engine by a sequence of calls. A world is well formed when every
  reference a session holds was allocated (it lies below \<open>next_ref\<close>), every session's
  array exists, and no two sessions share an array or an \<open>NDArray\<close>. The worlds a run
  reaches from the initial world are well formed.
\<close>

definition wf :: "'p world \<Rightarrow> bool" where
  "wf w \<longleftrightarrow>
     (\<forall>this s. seqs w this = Some s \<longrightarrow>
        this < next_ref w \<and> s_tokens s < next_ref w \<and> arrays w (s_tokens s) \<noteq> None \<and>
        (\<forall>r. s_logits s = Some r \<longrightarrow> r < next_ref w)) \<and>
     (\<forall>this that s t. seqs w this = Some s \<and> seqs w that = Some t \<and> this \<noteq> that \<longrightarrow>
        s_tokens s \<noteq> s_tokens t \<and> (\<forall>r. s_logits s = Some r \<longrightarrow> s_logits t \<noteq> Some r))"

datatype call =
    CreateSequence "AIAssistantPrompt list"
  | Advance ref "AITokenId list" int
  | Logits ref
  | Sample ref "AISamplingOptions option"
  | Tokens ref
  | Destroy ref

fun step :: "'p pipeline \<Rightarrow> call \<Rightarrow> 'p world \<Rightarrow> 'p world" where
  "step pl (CreateSequence msgs) w = snd (createSequence msgs w)"
| "step pl (Advance this appendTokens backtrack) w = snd (advance pl this appendTokens backtrack w)"
| "step pl (Logits this) w = snd (logits this w)"
| "step pl (Sample this options) w = snd (sample pl this options w)"
| "step pl (Tokens this) w = snd (tokens this w)"
| "step pl (Destroy this) w = snd (destroy this w)"

fun run :: "'p pipeline \<Rightarrow> call list \<Rightarrow> 'p world \<Rightarrow> 'p world" where
  "run pl [] w = w"
| "run pl (c # cs) w = run pl cs (step pl c w)"

text \<open>
  What a call on the session \<open>this\<close> may change: the session's own record, array and
  \<open>NDArray\<close>, the claim, and objects allocated by the call. \<open>untouched\<close> is for the
  calls that change no session at all.
\<close>

definition footprint :: "ref \<Rightarrow> MlcAiSequence \<Rightarrow> 'p world \<Rightarrow> 'p world \<Rightarrow> bool" where
  "footprint this s w w' \<longleftrightarrow>
     (\<forall>that. that \<noteq> this \<longrightarrow> seqs w' that = seqs w that) \<and>
     (\<exists>s'. seqs w' this = Some s' \<and> s_tokens s' = s_tokens s \<and>
           (s_logits s' = s_logits s \<or> s_logits s' = None \<or>
            (\<exists>r. s_logits s' = Some r \<and> next_ref w \<le> r \<and> r < next_ref w'))) \<and>
     next_ref w \<le> next_ref w' \<and>
     (window_ai_seq w' = window_ai_seq w \<or> window_ai_seq w' = Some this \<or>
      window_ai_seq w' = None) \<and>
     (\<forall>a. a \<noteq> s_tokens s \<longrightarrow> a < next_ref w \<longrightarrow> arrays w' a = arrays w a) \<and>
     (arrays w (s_tokens s) \<noteq> None \<longrightarrow> arrays w' (s_tokens s) \<noteq> None) \<and>
     (\<forall>r. r < next_ref w \<longrightarrow> s_logits s \<noteq> Some r \<longrightarrow> ndarrays w' r = ndarrays w r)"

definition untouched :: "'p world \<Rightarrow> 'p world \<Rightarrow> bool" where
  "untouched w w' \<longleftrightarrow>
     seqs w' = seqs w \<and> window_ai_seq w' = window_ai_seq w \<and> ndarrays w' = ndarrays w \<and>
     next_ref w \<le> next_ref w' \<and> (\<forall>a. a < next_ref w \<longrightarrow> arrays w' a = arrays w a)"

section \<open>Example worlds\<close>

text \<open>
  A small pipeline and the worlds a short run over it goes through: one session is
  created, primed and advanced by the tokens 7 and 8; a second session is created and
  primed, which takes the claim from the first; the first session is destroyed.
\<close>

definition demo_pipeline :: "nat pipeline" where
  "demo_pipeline =
     \<lparr>prefill = (\<lambda>msgs p. (Returned (Some \<lparr>nd_dtype = Float32, nd_data = [Fin 0, Fin 0]\<rparr>), 3)),
      filledKVCacheLength = (\<lambda>p. int p),
      forwardTokens =
        (\<lambda>ts p. (Returned \<lparr>nd_dtype = Float32, nd_data = [Fin 1, Fin 0]\<rparr>, p + length ts)),
      sampleTokenFromLogits = (\<lambda>nd t m p. (Returned 0, p)),
      context_window_size = 16\<rparr>"

definition demo_fresh :: "nat world" where
  "demo_fresh = snd (createSequence [] (init_world 0))"

definition demo_primed :: "nat world" where
  "demo_primed = snd (advance demo_pipeline 1 [] 0 demo_fresh)"

definition demo_two :: "nat world" where
  "demo_two = snd (advance demo_pipeline 1 [7, 8] 0 demo_primed)"

definition demo_second :: "nat world" where
  "demo_second = snd (createSequence [] demo_two)"

definition demo_displaced :: "nat world" where
  "demo_displaced = snd (advance demo_pipeline 5 [] 0 demo_second)"

definition demo_destroyed :: "nat world" where
  "demo_destroyed = snd (destroy 1 demo_two)"

definition demo_abandoned :: "nat world" where
  "demo_abandoned = snd (destroy 1 demo_fresh)"

text \<open>
  Three tokenizers. The first has a special token, a byte token and an ordinary token.
  The only token of the second has the shape of a special token and contains U+FFFD. The
  second token of the third is 256 letters long.
\<close>

definition demo_tokenizer :: tokenizer where
  "demo_tokenizer =
     \<lparr>getVocabSize = 3,
      encode = (\<lambda>s. [1, 29871]),
      decode = (\<lambda>ids. 0x02 # (if last ids = 0 then lit ''<s>'' else if last ids = 1 then [0xFFFD]
                  else lit ''ab'')),
      idToToken = (\<lambda>i. if i = 0 then lit ''<s>'' else if i = 1 then lit ''<0x0A>'' else lit ''ab'')\<rparr>"

definition odd_tokenizer :: tokenizer where
  "odd_tokenizer =
     \<lparr>getVocabSize = 1,
      encode = (\<lambda>s. [1, 29871]),
      decode = (\<lambda>ids. 0x02 # lit ''<|'' @ [0xFFFD] @ lit ''|>''),
      idToToken = (\<lambda>i. lit ''<|'' @ [0xFFFD] @ lit ''|>'')\<rparr>"

definition long_tokenizer :: tokenizer where
  "long_tokenizer =
     \<lparr>getVocabSize = 2,
      encode = (\<lambda>s. [1, 29871]),
      decode = (\<lambda>ids. 0x02 # (if last ids = 0 then lit ''a'' else replicate 256 0x61)),
      idToToken = (\<lambda>i. lit ''a'')\<rparr>"

lemmas demo_defs = createSequence_def init_world_def advance_def prime_def append_forward_def
  set_seq_def new_ndarray_def dispose_def update_array_def demo_pipeline_def Let_def

lemma demo_fresh_eq:
  "demo_fresh = \<lparr>next_ref = 2, arrays = [0 \<mapsto> []], ndarrays = Map.empty,
       seqs = [1 \<mapsto> \<lparr>s_tokens = 0, s_promptSize = 0, s_logits = None, s_messages = []\<rparr>],
       window_ai_seq = None, lowLevel = False, pipe = 0\<rparr>"
  by (simp add: demo_fresh_def demo_defs numeral_2_eq_2)

lemma demo_primed_eq:
  "demo_primed = \<lparr>next_ref = 3, arrays = [0 \<mapsto> []],
       ndarrays = [2 \<mapsto> \<lparr>nd_dtype = Float32, nd_data = [Fin 0, Fin 0]\<rparr>],
       seqs = [1 \<mapsto> \<lparr>s_tokens = 0, s_promptSize = 3, s_logits = Some 2, s_messages = []\<rparr>],
       window_ai_seq = Some 1, lowLevel = True, pipe = 3\<rparr>"
  by (simp add: demo_primed_def demo_fresh_eq demo_defs numeral_3_eq_3 numeral_2_eq_2)

lemma demo_two_eq:
  "demo_two = \<lparr>next_ref = 4, arrays = [0 \<mapsto> [7, 8]],
       ndarrays = [3 \<mapsto> \<lparr>nd_dtype = Float32, nd_data = [Fin 1, Fin 0]\<rparr>],
       seqs = [1 \<mapsto> \<lparr>s_tokens = 0, s_promptSize = 3, s_logits = Some 3, s_messages = []\<rparr>],
       window_ai_seq = Some 1, lowLevel = True, pipe = 5\<rparr>"
  by (simp add: demo_two_def demo_primed_eq demo_defs)

lemma demo_second_eq:
  "demo_second = \<lparr>next_ref = 6, arrays = [0 \<mapsto> [7, 8], 4 \<mapsto> []],
       ndarrays = [3 \<mapsto> \<lparr>nd_dtype = Float32, nd_data = [Fin 1, Fin 0]\<rparr>],
       seqs = [1 \<mapsto> \<lparr>s_tokens = 0, s_promptSize = 3, s_logits = Some 3, s_messages = []\<rparr>,
               5 \<mapsto> \<lparr>s_tokens = 4, s_promptSize = 0, s_logits = None, s_messages = []\<rparr>],
       window_ai_seq = Some 1, lowLevel = True, pipe = 5\<rparr>"
  by (simp add: demo_second_def demo_two_eq demo_defs)

lemma demo_displaced_eq:
  "demo_displaced = \<lparr>next_ref = 7, arrays = [0 \<mapsto> [7, 8], 4 \<mapsto> []],
       ndarrays = [3 \<mapsto> \<lparr>nd_dtype = Float32, nd_data = [Fin 1, Fin 0]\<rparr>,
                   6 \<mapsto> \<lparr>nd_dtype = Float32, nd_data = [Fin 0, Fin 0]\<rparr>],
       seqs = [1 \<mapsto> \<lparr>s_tokens = 0, s_promptSize = 3, s_logits = Some 3, s_messages = []\<rparr>,
               5 \<mapsto> \<lparr>s_tokens = 4, s_promptSize = 3, s_logits = Some 6, s_messages = []\<rparr>],
       window_ai_seq = Some 5, lowLevel = True, pipe = 3\<rparr>"
  by (simp add: demo_displaced_def demo_second_eq demo_defs)

lemma demo_destroyed_eq:
  "demo_destroyed = \<lparr>next_ref = 4, arrays = [0 \<mapsto> [7, 8]], ndarrays = Map.empty,
       seqs = [1 \<mapsto> \<lparr>s_tokens = 0, s_promptSize = 3, s_logits = None, s_messages = []\<rparr>],
       window_ai_seq = None, lowLevel = True, pipe = 5\<rparr>"
  by (simp add: demo_destroyed_def demo_two_eq destroy_def dispose_def set_seq_def)

section \<open>Well-formed worlds are preserved\<close>

lemma wfI:
  assumes "\<And>this s. seqs w this = Some s \<Longrightarrow>
             this < next_ref w \<and> s_tokens s < next_ref w \<and> arrays w (s_tokens s) \<noteq> None \<and>
             (\<forall>r. s_logits s = Some r \<longrightarrow> r < next_ref w)"
    and "\<And>this that s t. seqs w this = Some s \<Longrightarrow> seqs w that = Some t \<Longrightarrow> this \<noteq> that \<Longrightarrow>
             s_tokens s \<noteq> s_tokens t \<and> (\<forall>r. s_logits s = Some r \<longrightarrow> s_logits t \<noteq> Some r)"
  shows "wf w"
  using assms unfolding wf_def by blast

lemma wf_bound:
  assumes "wf w" and "seqs w this = Some s"
  shows "this < next_ref w" and "s_tokens s < next_ref w" and "\<exists>ts. arrays w (s_tokens s) = Some ts"
    and "s_logits s = Some r \<Longrightarrow> r < next_ref w"
  using assms unfolding wf_def by blast+

lemma wf_distinct:
  assumes "wf w" and "seqs w this = Some s" and "seqs w that = Some t" and "this \<noteq> that"
  shows "s_tokens s \<noteq> s_tokens t" and "s_logits s = Some r \<Longrightarrow> s_logits t \<noteq> Some r"
  using assms unfolding wf_def by blast+

lemma wf_init: "wf (init_world p)"
  by (simp add: wf_def init_world_def)

lemma wf_frame:
  assumes "wf w" and "seqs w' = seqs w" and "next_ref w \<le> next_ref w'"
    and "\<And>a. a < next_ref w \<Longrightarrow> arrays w a \<noteq> None \<Longrightarrow> arrays w' a \<noteq> None"
  shows "wf w'"
proof (rule wfI)
  fix this s assume "seqs w' this = Some s"
  then have s: "seqs w this = Some s" by (simp add: assms(2))
  from wf_bound [OF assms(1) s] assms(3,4)
  show "this < next_ref w' \<and> s_tokens s < next_ref w' \<and> arrays w' (s_tokens s) \<noteq> None \<and>
             (\<forall>r. s_logits s = Some r \<longrightarrow> r < next_ref w')"
    by fastforce
next
  fix this that s t
  assume "seqs w' this = Some s" "seqs w' that = Some t" "this \<noteq> that"
  then show "s_tokens s \<noteq> s_tokens t \<and> (\<forall>r. s_logits s = Some r \<longrightarrow> s_logits t \<noteq> Some r)"
    using wf_distinct [OF assms(1), of this s that t] by (simp add: assms(2))
qed

lemma wf_set_seq:
  assumes "wf w" and "seqs w this = Some s" and "s_tokens s' = s_tokens s"
    and "\<And>r. s_logits s' = Some r \<Longrightarrow> r < next_ref w"
    and "\<And>r that t. s_logits s' = Some r \<Longrightarrow> seqs w that = Some t \<Longrightarrow> that \<noteq> this \<Longrightarrow>
           s_logits t \<noteq> Some r"
  shows "wf (set_seq this s' w)"
proof (rule wfI)
  fix x u assume a: "seqs (set_seq this s' w) x = Some u"
  show "x < next_ref (set_seq this s' w) \<and> s_tokens u < next_ref (set_seq this s' w) \<and>
        arrays (set_seq this s' w) (s_tokens u) \<noteq> None \<and>
        (\<forall>r. s_logits u = Some r \<longrightarrow> r < next_ref (set_seq this s' w))"
  proof (cases "x = this")
    case True
    with a have "u = s'" by (simp add: set_seq_def)
    with True wf_bound [OF assms(1,2)] assms(3,4) show ?thesis
      by (auto simp: set_seq_def)
  next
    case False
    with a have "seqs w x = Some u" by (simp add: set_seq_def)
    from wf_bound [OF assms(1) this] show ?thesis
      by (auto simp: set_seq_def)
  qed
next
  fix x y u v
  assume a: "seqs (set_seq this s' w) x = Some u" "seqs (set_seq this s' w) y = Some v" "x \<noteq> y"
  show "s_tokens u \<noteq> s_tokens v \<and> (\<forall>r. s_logits u = Some r \<longrightarrow> s_logits v \<noteq> Some r)"
  proof (cases "x = this")
    case True
    with a have u: "u = s'" and v: "seqs w y = Some v" and ne: "y \<noteq> this"
      by (auto simp: set_seq_def)
    from wf_distinct(1) [OF assms(1,2) v] ne assms(5) [OF _ v ne] u assms(3) show ?thesis
      by auto
  next
    case False
    with a have u: "seqs w x = Some u" by (simp add: set_seq_def)
    show ?thesis
    proof (cases "y = this")
      case True
      with a have v: "v = s'" by (simp add: set_seq_def)
      from wf_distinct(1) [OF assms(1) u assms(2) False] assms(5) [OF _ u False] v assms(3)
      show ?thesis by auto
    next
      case False
      with a have v: "seqs w y = Some v" by (simp add: set_seq_def)
      from wf_distinct [OF assms(1) u v a(3)] show ?thesis by blast
    qed
  qed
qed

lemma wf_createSequence: "wf w \<Longrightarrow> wf (snd (createSequence msgs w))"
proof (rule wfI)
  assume w: "wf w"
  let ?w = "snd (createSequence msgs w)"
  {
    fix this s assume a: "seqs ?w this = Some s"
    show "this < next_ref ?w \<and> s_tokens s < next_ref ?w \<and> arrays ?w (s_tokens s) \<noteq> None \<and>
          (\<forall>r. s_logits s = Some r \<longrightarrow> r < next_ref ?w)"
    proof (cases "this = Suc (next_ref w)")
      case True
      with a show ?thesis by (auto simp: createSequence_def Let_def)
    next
      case False
      with a have "seqs w this = Some s" by (simp add: createSequence_def Let_def)
      from wf_bound [OF w this] show ?thesis
        by (auto simp: createSequence_def Let_def)
    qed
  }
  {
    fix this that s t
    assume a: "seqs ?w this = Some s" "seqs ?w that = Some t" "this \<noteq> that"
    have new: "s_tokens u \<noteq> next_ref w" if "seqs w x = Some u" for x u
      using wf_bound(2) [OF w that] by simp
    show "s_tokens s \<noteq> s_tokens t \<and> (\<forall>r. s_logits s = Some r \<longrightarrow> s_logits t \<noteq> Some r)"
    proof (cases "this = Suc (next_ref w)")
      case True
      with a have "seqs w that = Some t" and "s_tokens s = next_ref w" and "s_logits s = None"
        by (auto simp: createSequence_def Let_def)
      with new show ?thesis by fastforce
    next
      case False
      with a have s: "seqs w this = Some s" by (simp add: createSequence_def Let_def)
      show ?thesis
      proof (cases "that = Suc (next_ref w)")
        case True
        with a have "s_tokens t = next_ref w" and "s_logits t = None"
          by (auto simp: createSequence_def Let_def)
        with new [OF s] show ?thesis by simp
      next
        case False
        with a have t: "seqs w that = Some t" by (simp add: createSequence_def Let_def)
        from wf_distinct [OF w s t a(3)] show ?thesis by blast
      qed
    qed
  }
qed

lemma footprint_refl: "seqs w this = Some s \<Longrightarrow> footprint this s w w"
  unfolding footprint_def by auto

lemma prime_footprint:
  assumes "seqs w this = Some s"
  shows "footprint this s w (snd (prime pl this s w))"
  unfolding footprint_def prime_def Let_def set_seq_def new_ndarray_def dispose_def
  by (auto split: prod.splits outcome.splits option.splits)

lemma splice_footprint:
  assumes "seqs w this = Some s"
  shows "footprint this s w (update_array (s_tokens s) f w)"
  using assms unfolding footprint_def update_array_def
  by auto

lemma append_forward_footprint:
  assumes "seqs w this = Some s"
  shows "footprint this s w (snd (append_forward pl this s toks w))"
  using assms
  unfolding footprint_def append_forward_def Let_def set_seq_def new_ndarray_def dispose_def update_array_def
  by (auto split: prod.splits outcome.splits option.splits)

lemma destroy_footprint:
  assumes "seqs w this = Some s"
  shows "footprint this s w (snd (destroy this w))"
  using assms
  unfolding footprint_def destroy_def Let_def set_seq_def dispose_def
  by (auto split: option.splits)

lemma tokens_untouched: "untouched w (snd (tokens this w))"
  unfolding untouched_def tokens_def by (auto split: option.splits)

lemma sample_untouched: "untouched w (snd (sample pl this options w))"
  unfolding untouched_def sample_def by (auto split: option.splits prod.splits outcome.splits)

lemma logits_untouched: "untouched w (snd (logits this w))"
  unfolding untouched_def logits_def by (auto split: option.splits)


lemma wf_footprint:
  assumes w: "wf w" and s: "seqs w this = Some s" and f: "footprint this s w w'"
  shows "wf w'"
proof -
  from f obtain s' where s': "seqs w' this = Some s'" "s_tokens s' = s_tokens s"
    and lg: "s_logits s' = s_logits s \<or> s_logits s' = None \<or>
            (\<exists>r. s_logits s' = Some r \<and> next_ref w \<le> r \<and> r < next_ref w')"
    and oth: "\<And>that. that \<noteq> this \<Longrightarrow> seqs w' that = seqs w that"
    and nx: "next_ref w \<le> next_ref w'"
    and ar: "\<And>a. a \<noteq> s_tokens s \<Longrightarrow> a < next_ref w \<Longrightarrow> arrays w' a = arrays w a"
    and ar': "arrays w (s_tokens s) \<noteq> None \<Longrightarrow> arrays w' (s_tokens s) \<noteq> None"
    unfolding footprint_def by blast
  note bs = wf_bound [OF w s]
  have lgb: "r < next_ref w'" if "s_logits s' = Some r" for r
    using lg that bs(4) [of r] nx by auto
  show ?thesis
  proof (rule wfI)
    fix x u assume a: "seqs w' x = Some u"
    show "x < next_ref w' \<and> s_tokens u < next_ref w' \<and> arrays w' (s_tokens u) \<noteq> None \<and>
          (\<forall>r. s_logits u = Some r \<longrightarrow> r < next_ref w')"
    proof (cases "x = this")
      case True
      with a s' have "u = s'" by simp
      with True bs s'(2) nx ar' lgb show ?thesis by auto
    next
      case False
      with a oth have u: "seqs w x = Some u" by simp
      note bu = wf_bound [OF w u]
      have "arrays w' (s_tokens u) = arrays w (s_tokens u)"
        using wf_distinct(1) [OF w u s False] bu(2) by (intro ar) auto
      with bu nx show ?thesis by auto
    qed
  next
    fix x y u v
    assume a: "seqs w' x = Some u" "seqs w' y = Some v" "x \<noteq> y"
    have new: "s_logits t \<noteq> s_logits s'"
      if "seqs w that = Some t" "that \<noteq> this" "s_logits s' \<noteq> None" for that t
    proof -
      from lg that(3) consider "s_logits s' = s_logits s"
        | r where "s_logits s' = Some r" "next_ref w \<le> r" by blast
      then show ?thesis
      proof cases
        case 1
        with wf_distinct(2) [OF w s that(1)] that(2,3) show ?thesis by fastforce
      next
        case 2
        with wf_bound(4) [OF w that(1), of r] show ?thesis by auto
      qed
    qed
    show "s_tokens u \<noteq> s_tokens v \<and> (\<forall>r. s_logits u = Some r \<longrightarrow> s_logits v \<noteq> Some r)"
    proof (cases "x = this")
      case True
      with a s' oth have u: "u = s'" and v: "seqs w y = Some v" and ne: "y \<noteq> this" by auto
      from wf_distinct(1) [OF w s v] ne new [OF v ne] u s'(2) show ?thesis by auto
    next
      case False
      with a oth have u: "seqs w x = Some u" by simp
      show ?thesis
      proof (cases "y = this")
        case True
        with a s' have v: "v = s'" by simp
        from wf_distinct(1) [OF w u s False] new [OF u False] v s'(2) show ?thesis by auto
      next
        case False
        with a oth have v: "seqs w y = Some v" by simp
        from wf_distinct [OF w u v a(3)] show ?thesis by blast
      qed
    qed
  qed
qed

lemma wf_untouched:
  assumes "wf w" and "untouched w w'"
  shows "wf w'"
  using assms(2) by (intro wf_frame [OF assms(1)]) (simp_all add: untouched_def)

lemma footprint_other:
  assumes w: "wf w" and s: "seqs w this = Some s" and f: "footprint this s w w'"
    and a: "seqs w A = Some sa" and ne: "A \<noteq> this"
  shows "seqs w' A = Some sa"
    and "arrays w' (s_tokens sa) = arrays w (s_tokens sa)"
    and "s_logits sa = Some r \<Longrightarrow> ndarrays w' r = ndarrays w r"
    and "window_ai_seq w \<noteq> Some A \<Longrightarrow> window_ai_seq w' \<noteq> Some A"
proof -
  from f ne a show "seqs w' A = Some sa"
    unfolding footprint_def by simp
  from wf_distinct(1) [OF w a s ne] wf_bound(2) [OF w a] f
  show "arrays w' (s_tokens sa) = arrays w (s_tokens sa)"
    unfolding footprint_def by blast
  show "ndarrays w' r = ndarrays w r" if "s_logits sa = Some r"
  proof -
    from wf_distinct(2) [OF w a s ne that] have "s_logits s \<noteq> Some r" .
    with wf_bound(4) [OF w a that] f show ?thesis
      unfolding footprint_def by blast
  qed
  from f ne show "window_ai_seq w' \<noteq> Some A" if "window_ai_seq w \<noteq> Some A"
    using that unfolding footprint_def by auto
qed

lemma untouched_other:
  assumes w: "wf w" and f: "untouched w w'" and a: "seqs w A = Some sa"
  shows "seqs w' A = Some sa"
    and "arrays w' (s_tokens sa) = arrays w (s_tokens sa)"
    and "ndarrays w' = ndarrays w"
    and "window_ai_seq w' = window_ai_seq w"
  using f a wf_bound(2) [OF w a] unfolding untouched_def by auto

text \<open>The worlds an \<open>advance\<close> can end in.\<close>

lemma advance_world:
  assumes "seqs w this = Some s"
  obtains w1 s1 where "w1 = w \<or> w1 = snd (prime pl this s w)" and "seqs w1 this = Some s1"
    and "snd (advance pl this toks bt w) = w1 \<or>
         snd (advance pl this toks bt w) = update_array (s_tokens s1) (splice_last bt) w1 \<or>
         snd (advance pl this toks bt w) = snd (append_forward pl this s1 toks w1)"
proof -
  have p: "\<exists>s1. seqs (snd (prime pl this s w)) this = Some s1"
    using prime_footprint [OF assms, of pl] unfolding footprint_def by blast
  show ?thesis
  proof (cases "s_promptSize s = 0")
    case True
    from p obtain s1 where s1: "seqs (snd (prime pl this s w)) this = Some s1" ..
    show ?thesis
      by (rule that [of "snd (prime pl this s w)" s1])
         (use True assms s1 in \<open>auto simp: advance_def split: prod.splits sum.splits\<close>)
  next
    case False
    show ?thesis
      by (rule that [of w s])
         (use False assms in \<open>auto simp: advance_def split: prod.splits sum.splits\<close>)
  qed
qed

lemma wf_advance:
  assumes w: "wf w"
  shows "wf (snd (advance pl this toks bt w))"
proof (cases "seqs w this")
  case None
  with w show ?thesis by (simp add: advance_def)
next
  case (Some s)
  from advance_world [OF Some, of pl toks bt] obtain w1 s1
    where w1: "w1 = w \<or> w1 = snd (prime pl this s w)" and s1: "seqs w1 this = Some s1"
      and r: "snd (advance pl this toks bt w) = w1 \<or>
         snd (advance pl this toks bt w) = update_array (s_tokens s1) (splice_last bt) w1 \<or>
         snd (advance pl this toks bt w) = snd (append_forward pl this s1 toks w1)"
    by blast
  from w1 have wf1: "wf w1"
    using w wf_footprint [OF w Some prime_footprint [OF Some]] by auto
  from r show ?thesis
    using wf1 wf_footprint [OF wf1 s1 splice_footprint [OF s1]]
      wf_footprint [OF wf1 s1 append_forward_footprint [OF s1]]
    by auto
qed

lemma advance_other:
  assumes w: "wf w" and a: "seqs w A = Some sa" and ne: "A \<noteq> this"
  shows "seqs (snd (advance pl this toks bt w)) A = Some sa"
    and "arrays (snd (advance pl this toks bt w)) (s_tokens sa) = arrays w (s_tokens sa)"
    and "s_logits sa = Some r \<Longrightarrow> ndarrays (snd (advance pl this toks bt w)) r = ndarrays w r"
    and "window_ai_seq w \<noteq> Some A \<Longrightarrow> window_ai_seq (snd (advance pl this toks bt w)) \<noteq> Some A"
proof -
  let ?w' = "snd (advance pl this toks bt w)"
  have "seqs ?w' A = Some sa \<and> arrays ?w' (s_tokens sa) = arrays w (s_tokens sa) \<and>
        (s_logits sa = Some r \<longrightarrow> ndarrays ?w' r = ndarrays w r) \<and>
        (window_ai_seq w \<noteq> Some A \<longrightarrow> window_ai_seq ?w' \<noteq> Some A)"
  proof (cases "seqs w this")
    case None
    with a show ?thesis by (simp add: advance_def)
  next
    case (Some s)
    from advance_world [OF Some, of pl toks bt] obtain w1 s1
      where w1: "w1 = w \<or> w1 = snd (prime pl this s w)" and s1: "seqs w1 this = Some s1"
        and r: "?w' = w1 \<or> ?w' = update_array (s_tokens s1) (splice_last bt) w1 \<or>
                ?w' = snd (append_forward pl this s1 toks w1)"
      by blast
    note p = footprint_other [OF w Some prime_footprint [OF Some] a ne]
    from w1 have wf1: "wf w1"
      using w wf_footprint [OF w Some prime_footprint [OF Some]] by auto
    from w1 p have a1: "seqs w1 A = Some sa"
      and b1: "arrays w1 (s_tokens sa) = arrays w (s_tokens sa)"
      and c1: "s_logits sa = Some r \<longrightarrow> ndarrays w1 r = ndarrays w r"
      and d1: "window_ai_seq w \<noteq> Some A \<longrightarrow> window_ai_seq w1 \<noteq> Some A"
      using a by auto
    note q1 = footprint_other [OF wf1 s1 splice_footprint [OF s1, of "splice_last bt"] a1 ne]
    note q2 = footprint_other [OF wf1 s1 append_forward_footprint [OF s1, of pl toks] a1 ne]
    from r consider "?w' = w1" | "?w' = update_array (s_tokens s1) (splice_last bt) w1"
      | "?w' = snd (append_forward pl this s1 toks w1)" by blast
    then show ?thesis
    proof cases
      case 1
      with a1 b1 c1 d1 show ?thesis by simp
    next
      case 2
      with q1 b1 c1 d1 show ?thesis by simp
    next
      case 3
      with q2 b1 c1 d1 show ?thesis by simp
    qed
  qed
  then show "seqs ?w' A = Some sa"
    and "arrays ?w' (s_tokens sa) = arrays w (s_tokens sa)"
    and "s_logits sa = Some r \<Longrightarrow> ndarrays ?w' r = ndarrays w r"
    and "window_ai_seq w \<noteq> Some A \<Longrightarrow> window_ai_seq ?w' \<noteq> Some A"
    by simp_all
qed


lemma createSequence_other:
  assumes w: "wf w" and a: "seqs w A = Some sa"
  shows "seqs (snd (createSequence msgs w)) A = Some sa"
    and "arrays (snd (createSequence msgs w)) (s_tokens sa) = arrays w (s_tokens sa)"
    and "ndarrays (snd (createSequence msgs w)) = ndarrays w"
    and "window_ai_seq (snd (createSequence msgs w)) = window_ai_seq w"
  using a wf_bound(1,2) [OF w a] by (auto simp: createSequence_def Let_def)

lemma advance_displaced:
  assumes "seqs w A = Some sa" and "s_promptSize sa \<noteq> 0" and "window_ai_seq w \<noteq> Some A"
  shows "advance pl A toks bt w = (Inl CannotAdvanceDifferent, w)"
  using assms by (simp add: advance_def)

lemma destroy_other:
  assumes w: "wf w" and a: "seqs w A = Some sa" and ne: "A \<noteq> this"
  shows "seqs (snd (destroy this w)) A = Some sa"
    and "arrays (snd (destroy this w)) (s_tokens sa) = arrays w (s_tokens sa)"
    and "s_logits sa = Some r \<Longrightarrow> ndarrays (snd (destroy this w)) r = ndarrays w r"
    and "window_ai_seq w \<noteq> Some A \<Longrightarrow> window_ai_seq (snd (destroy this w)) \<noteq> Some A"
proof -
  let ?w' = "snd (destroy this w)"
  have "seqs ?w' A = Some sa \<and> arrays ?w' (s_tokens sa) = arrays w (s_tokens sa) \<and>
        (s_logits sa = Some r \<longrightarrow> ndarrays ?w' r = ndarrays w r) \<and>
        (window_ai_seq w \<noteq> Some A \<longrightarrow> window_ai_seq ?w' \<noteq> Some A)"
  proof (cases "seqs w this")
    case None
    with a show ?thesis by (simp add: destroy_def)
  next
    case (Some s)
    from footprint_other [OF w Some destroy_footprint [OF Some] a ne] show ?thesis by simp
  qed
  then show "seqs ?w' A = Some sa"
    and "arrays ?w' (s_tokens sa) = arrays w (s_tokens sa)"
    and "s_logits sa = Some r \<Longrightarrow> ndarrays ?w' r = ndarrays w r"
    and "window_ai_seq w \<noteq> Some A \<Longrightarrow> window_ai_seq ?w' \<noteq> Some A"
    by simp_all
qed

lemma destroy_self:
  assumes "seqs w A = Some sa"
  shows "seqs (snd (destroy A w)) A = Some (sa\<lparr>s_logits := None\<rparr>)"
    and "arrays (snd (destroy A w)) = arrays w"
    and "window_ai_seq (snd (destroy A w)) \<noteq> Some A"
  using assms by (auto simp: destroy_def set_seq_def dispose_def Let_def split: option.splits)

lemma wf_destroy: "wf w \<Longrightarrow> wf (snd (destroy this w))"
proof (cases "seqs w this")
  case None
  assume "wf w"
  with None show ?thesis by (simp add: destroy_def)
next
  case (Some s)
  assume "wf w"
  from wf_footprint [OF this Some destroy_footprint [OF Some]] show ?thesis .
qed

lemma wf_step: "wf w \<Longrightarrow> wf (step pl c w)"
  by (cases c)
     (simp_all add: wf_createSequence wf_advance wf_destroy
        wf_untouched [OF _ tokens_untouched] wf_untouched [OF _ sample_untouched]
        wf_untouched [OF _ logits_untouched])

lemma wf_run: "wf w \<Longrightarrow> wf (run pl cs w)"
  by (induction cs arbitrary: w) (simp_all add: wf_step)

lemma step_displaced:
  assumes w: "wf w" and a: "seqs w A = Some sa" and p: "s_promptSize sa \<noteq> 0"
    and d: "window_ai_seq w \<noteq> Some A"
  shows "window_ai_seq (step pl c w) \<noteq> Some A"
    and "arrays (step pl c w) (s_tokens sa) = arrays w (s_tokens sa)"
    and "seqs (step pl c w) A = Some (if c = Destroy A then sa\<lparr>s_logits := None\<rparr> else sa)"
    and "c \<noteq> Destroy A \<Longrightarrow> s_logits sa = Some r \<Longrightarrow> ndarrays (step pl c w) r = ndarrays w r"
proof -
  let ?w' = "step pl c w"
  have "window_ai_seq ?w' \<noteq> Some A \<and> arrays ?w' (s_tokens sa) = arrays w (s_tokens sa) \<and>
        seqs ?w' A = Some (if c = Destroy A then sa\<lparr>s_logits := None\<rparr> else sa) \<and>
        (c \<noteq> Destroy A \<longrightarrow> s_logits sa = Some r \<longrightarrow> ndarrays ?w' r = ndarrays w r)"
  proof (cases c)
    case (CreateSequence msgs)
    with createSequence_other [OF w a, where msgs = msgs] d show ?thesis by simp
  next
    case (Advance this toks bt)
    show ?thesis
    proof (cases "this = A")
      case True
      with Advance advance_displaced [OF a p d, where pl = pl and toks = toks and bt = bt] a d show ?thesis by simp
    next
      case False
      then have "A \<noteq> this" by simp
      from advance_other [OF w a this, where pl = pl and toks = toks and bt = bt] Advance d show ?thesis by simp
    qed
  next
    case (Logits this)
    with untouched_other [OF w logits_untouched [of w this] a] d show ?thesis by simp
  next
    case (Sample this options)
    with untouched_other [OF w sample_untouched [of w pl this options] a] d show ?thesis by simp
  next
    case (Tokens this)
    with untouched_other [OF w tokens_untouched [of w this] a] d show ?thesis by simp
  next
    case (Destroy this)
    show ?thesis
    proof (cases "this = A")
      case True
      with Destroy destroy_self [OF a] show ?thesis by simp
    next
      case False
      then have "A \<noteq> this" by simp
      from destroy_other [OF w a this] Destroy d False show ?thesis by simp
    qed
  qed
  then show "window_ai_seq ?w' \<noteq> Some A"
    and "arrays ?w' (s_tokens sa) = arrays w (s_tokens sa)"
    and "seqs ?w' A = Some (if c = Destroy A then sa\<lparr>s_logits := None\<rparr> else sa)"
    and "c \<noteq> Destroy A \<Longrightarrow> s_logits sa = Some r \<Longrightarrow> ndarrays ?w' r = ndarrays w r"
    by simp_all
qed

lemma run_displaced:
  assumes "wf w" and "seqs w A = Some sa" and "s_promptSize sa \<noteq> 0"
    and "window_ai_seq w \<noteq> Some A"
  shows "window_ai_seq (run pl cs w) \<noteq> Some A \<and>
         arrays (run pl cs w) (s_tokens sa) = arrays w (s_tokens sa) \<and>
         seqs (run pl cs w) A = Some (if Destroy A \<in> set cs then sa\<lparr>s_logits := None\<rparr> else sa) \<and>
         (Destroy A \<notin> set cs \<longrightarrow>
            (\<forall>r. s_logits sa = Some r \<longrightarrow> ndarrays (run pl cs w) r = ndarrays w r))"
  using assms
proof (induction cs arbitrary: w sa)
  case Nil
  then show ?case by simp
next
  case (Cons c cs)
  note st = step_displaced [OF Cons.prems, where pl = pl and c = c]
  let ?sa = "if c = Destroy A then sa\<lparr>s_logits := None\<rparr> else sa"
  have p: "s_promptSize ?sa \<noteq> 0" using Cons.prems(3) by simp
  note ih = Cons.IH [OF wf_step [OF Cons.prems(1)] st(3) p st(1)]
  show ?case
  proof (cases "c = Destroy A")
    case True
    with ih st(2) show ?thesis by simp
  next
    case False
    with ih st(2) st(4) show ?thesis by simp
  qed
qed

section \<open>Reading a session; a successful \<open>advance\<close>\<close>

lemma read_tokens_eq:
  assumes "seqs w this = Some s"
  shows "read_tokens this w = (case arrays w (s_tokens s) of None \<Rightarrow> Inl NoSuchObject | Some ts \<Rightarrow> Inr ts)"
  using assms by (simp add: read_tokens_def tokens_def split: option.splits)

lemma logits_eq:
  assumes "seqs w this = Some s"
  shows "fst (logits this w) =
           (case s_logits s of None \<Rightarrow> Inl NoLogits
            | Some r \<Rightarrow> (case ndarrays w r of None \<Rightarrow> Inl DisposedNDArray
                 | Some nd \<Rightarrow> if nd_dtype nd = Float32 then Inr (nd_data nd) else Inl NotAFloat32Array))"
  using assms by (simp add: logits_def split: option.splits)

lemma advance_ok:
  assumes "advance pl this toks bt w = (Inr (), w1)" and "seqs w this = Some s"
  shows "window_ai_seq w1 = Some this"
    and "\<exists>s1. seqs w1 this = Some s1 \<and> s_tokens s1 = s_tokens s"
    and "arrays w1 (s_tokens s) = map_option (\<lambda>ts. ts @ toks) (arrays w (s_tokens s))"
    and "bt \<le> 0"
  using assms
  by (auto simp: advance_def prime_def append_forward_def update_array_def new_ndarray_def
      set_seq_def dispose_def Let_def map_option_case
      split: prod.splits outcome.splits option.splits if_splits)

lemma advance_claimant:
  assumes "seqs w this = Some s" and "s_promptSize s \<noteq> 0" and "window_ai_seq w = Some this"
    and "toks \<noteq> []" and "forwardTokens pl toks (pipe w) = (Returned nd, p)"
  shows "fst (advance pl this toks 0 w) = Inr ()"
  using assms
  by (simp add: advance_def append_forward_def update_array_def new_ndarray_def
      set_seq_def dispose_def Let_def split: option.splits)

lemma advance_claimant_empty:
  assumes "seqs w this = Some s" and "s_promptSize s \<noteq> 0" and "window_ai_seq w = Some this"
  shows "advance pl this [] 0 w = (Inr (), w)"
  using assms by (simp add: advance_def)

lemma destroy_eq:
  assumes "seqs w this = Some s"
  shows "destroy this w =
    (Inr (), w\<lparr>ndarrays := (case s_logits s of None \<Rightarrow> ndarrays w | Some r \<Rightarrow> (ndarrays w)(r := None)),
              seqs := (seqs w)(this \<mapsto> s\<lparr>s_logits := None\<rparr>),
              window_ai_seq := (if window_ai_seq w = Some this then None else window_ai_seq w)\<rparr>)"
  using assms by (simp add: destroy_def dispose_def set_seq_def split: option.splits)

lemma advance_new_session:
  assumes "createSequence msgs w = (that, w2)"
  shows "fst (advance pl that toks bt w2) \<noteq> Inl CannotAdvanceDifferent"
  using assms
  by (auto simp: createSequence_def advance_def prime_def append_forward_def new_ndarray_def
      set_seq_def dispose_def Let_def split: prod.splits outcome.splits option.splits)

lemma prime_new_session:
  assumes "createSequence msgs w = (that, w2)"
    and "prefill pl msgs (pipe w) = (Returned (Some nd), p)"
  shows "\<exists>w3. advance pl that [] 0 w2 = (Inr (), w3) \<and> window_ai_seq w3 = Some that"
  using assms
  by (auto simp: createSequence_def advance_def prime_def new_ndarray_def
      set_seq_def dispose_def Let_def split: prod.splits outcome.splits option.splits)

lemma no_logits:
  assumes "seqs w this = Some s" and "s_logits s = None"
  shows "logits this w = (Inl NoLogits, w)" and "sample pl this options w = (Inl NoLogits, w)"
  using assms by (simp_all add: logits_def sample_def)

section \<open>A displaced session\<close>

text \<open>
  Claim C2. Let the session \<open>A\<close> be primed (its prompt size, the length the engine
  reported for its prefill, is not 0), and let a second, unprimed session \<open>B\<close> prime:
  \<open>B\<close> takes the claim. Then, after any further calls whatsoever, every
  \<open>A.advance\<close> fails with the conflicting-session error and changes nothing;
  \<open>B.advance\<close> of a non-empty list succeeds when the pipeline forwards the tokens; and
  as long as \<open>A\<close> is not destroyed, its token history and its logits read exactly as
  they did before \<open>B\<close> primed.
\<close>

theorem displaced_session_conflict:
  assumes w: "wf w1" and a: "seqs w1 A = Some sa" and pa: "s_promptSize sa \<noteq> 0"
    and b: "seqs w1 B = Some sb" and pb: "s_promptSize sb = 0"
    and adv: "advance pl B [] 0 w1 = (Inr (), w2)"
  shows "(\<forall>cs toks bt. advance pl A toks bt (run pl cs w2) =
                         (Inl CannotAdvanceDifferent, run pl cs w2)) \<and>
         (\<forall>toks nd p sb2. toks \<noteq> [] \<and> seqs w2 B = Some sb2 \<and> s_promptSize sb2 \<noteq> 0 \<and>
              forwardTokens pl toks (pipe w2) = (Returned nd, p) \<longrightarrow>
              fst (advance pl B toks 0 w2) = Inr ()) \<and>
         (\<forall>cs. Destroy A \<notin> set cs \<longrightarrow>
              read_tokens A (run pl cs w2) = read_tokens A w1 \<and>
              fst (logits A (run pl cs w2)) = fst (logits A w1))"
proof -
  from pa pb a b have ne: "A \<noteq> B" by auto
  have w2: "w2 = snd (advance pl B [] 0 w1)" by (simp add: adv)
  have wf2: "wf w2" unfolding w2 by (rule wf_advance [OF w])
  note o = advance_other [OF w a ne, where pl = pl and toks = "[]" and bt = 0, folded w2]
  have claim: "window_ai_seq w2 = Some B" by (rule advance_ok(1) [OF adv b])
  with ne have d: "window_ai_seq w2 \<noteq> Some A" by simp
  note r = run_displaced [OF wf2 o(1) pa d, where pl = pl]
  have 1: "advance pl A toks bt (run pl cs w2) = (Inl CannotAdvanceDifferent, run pl cs w2)"
    for cs toks bt
  proof (rule advance_displaced)
    from r [of cs]
    show "seqs (run pl cs w2) A = Some (if Destroy A \<in> set cs then sa\<lparr>s_logits := None\<rparr> else sa)"
      by simp
    from pa show "s_promptSize (if Destroy A \<in> set cs then sa\<lparr>s_logits := None\<rparr> else sa) \<noteq> 0"
      by simp
    from r [of cs] show "window_ai_seq (run pl cs w2) \<noteq> Some A" by simp
  qed
  have 2: "fst (advance pl B toks 0 w2) = Inr ()"
    if "toks \<noteq> []" "seqs w2 B = Some sb2" "s_promptSize sb2 \<noteq> 0"
       "forwardTokens pl toks (pipe w2) = (Returned nd, p)" for toks nd p sb2
    by (rule advance_claimant [OF that(2,3) claim that(1,4)])
  have 3: "read_tokens A (run pl cs w2) = read_tokens A w1 \<and>
           fst (logits A (run pl cs w2)) = fst (logits A w1)" if nd: "Destroy A \<notin> set cs" for cs
  proof -
    from r [of cs] nd have s: "seqs (run pl cs w2) A = Some sa"
      and ar: "arrays (run pl cs w2) (s_tokens sa) = arrays w2 (s_tokens sa)"
      and lg: "\<And>r. s_logits sa = Some r \<Longrightarrow> ndarrays (run pl cs w2) r = ndarrays w2 r"
      by simp_all
    have "read_tokens A (run pl cs w2) = read_tokens A w1"
      by (simp add: read_tokens_eq [OF s] read_tokens_eq [OF a] ar o(2))
    moreover have "fst (logits A (run pl cs w2)) = fst (logits A w1)"
      using lg o(3) by (simp add: logits_eq [OF s] logits_eq [OF a] split: option.splits)
    ultimately show ?thesis ..
  qed
  from 1 2 3 show ?thesis by blast
qed

lemma wf_demo_two: "wf demo_two"
  unfolding demo_two_def demo_primed_def demo_fresh_def
  by (intro wf_createSequence wf_advance wf_init)

lemma wf_demo_second: "wf demo_second"
  unfolding demo_second_def demo_two_def demo_primed_def demo_fresh_def
  by (intro wf_createSequence wf_advance wf_init)

theorem displaced_session_conflict_witness:
  "advance demo_pipeline 1 [9] 0 (run demo_pipeline [Advance 5 [9] 0, Tokens 1] demo_displaced) =
     (Inl CannotAdvanceDifferent, run demo_pipeline [Advance 5 [9] 0, Tokens 1] demo_displaced) \<and>
   fst (advance demo_pipeline 5 [9] 0 demo_displaced) = Inr () \<and>
   read_tokens 1 (run demo_pipeline [Advance 5 [9] 0, Tokens 1] demo_displaced) = Inr [7, 8] \<and>
   fst (logits 1 (run demo_pipeline [Advance 5 [9] 0, Tokens 1] demo_displaced)) = Inr [Fin 1, Fin 0]"
proof -
  let ?sa = "\<lparr>s_tokens = 0, s_promptSize = 3, s_logits = Some 3, s_messages = []\<rparr>"
  let ?sb = "\<lparr>s_tokens = 4, s_promptSize = 0, s_logits = None, s_messages = []\<rparr>"
  let ?sb2 = "\<lparr>s_tokens = 4, s_promptSize = 3, s_logits = Some 6, s_messages = []\<rparr>"
  have a: "seqs demo_second 1 = Some ?sa" and b: "seqs demo_second 5 = Some ?sb"
    by (simp_all add: demo_second_eq)
  have adv: "advance demo_pipeline 5 [] 0 demo_second = (Inr (), demo_displaced)"
    unfolding demo_displaced_def by (simp add: demo_second_eq demo_defs)
  have b2: "seqs demo_displaced 5 = Some ?sb2" by (simp add: demo_displaced_eq)
  have f: "forwardTokens demo_pipeline [9] (pipe demo_displaced) =
             (Returned \<lparr>nd_dtype = Float32, nd_data = [Fin 1, Fin 0]\<rparr>, 4)"
    by (simp add: demo_displaced_eq demo_pipeline_def)
  have rt: "read_tokens 1 demo_second = Inr [7, 8]"
    unfolding read_tokens_eq [OF a] by (simp add: demo_second_eq)
  have lg: "fst (logits 1 demo_second) = Inr [Fin 1, Fin 0]"
    unfolding logits_eq [OF a] by (simp add: demo_second_eq)
  have pa: "s_promptSize ?sa \<noteq> 0" and pb: "s_promptSize ?sb = 0" and p2: "s_promptSize ?sb2 \<noteq> 0"
    by simp_all
  have nd: "Destroy 1 \<notin> set [Advance 5 [9] 0, Tokens 1]" by simp
  note T = displaced_session_conflict [OF wf_demo_second a pa b pb adv]
  note T1 = T [THEN conjunct1, rule_format]
  note T2 = T [THEN conjunct2, THEN conjunct1, rule_format, OF conjI [OF _ conjI [OF b2 conjI [OF p2 f]]]]
  note T3 = T [THEN conjunct2, THEN conjunct2, rule_format, OF nd]
  have "fst (advance demo_pipeline 5 [9] 0 demo_displaced) = Inr ()"
    by (rule T2) simp
  with T1 [of "[9]" 0 "[Advance 5 [9] 0, Tokens 1]"] T3 rt lg show ?thesis
    by simp
qed

section \<open>The \<open>tokens\<close> getter\<close>

text \<open>
  Claim C10. In a well-formed world, reading \<open>tokens\<close> succeeds and returns a
  reference to a new array: no session holds it, and it has the elements of the session's
  history. Whatever the caller then writes into the returned array, every session record
  and the session's own array stay as they were, and \<open>tokens\<close> read again, before or
  after such a write, gives the same elements.
\<close>

theorem tokens_fresh_copy:
  assumes w: "wf w" and s: "seqs w this = Some s" and ts: "arrays w (s_tokens s) = Some ts"
  shows "\<exists>a w1. tokens this w = (Inr a, w1) \<and> arrays w1 a = Some ts \<and>
           (\<forall>that t. seqs w that = Some t \<longrightarrow> a \<noteq> s_tokens t) \<and>
           seqs w1 = seqs w \<and> arrays w1 (s_tokens s) = Some ts \<and>
           (\<forall>xs. seqs (w1\<lparr>arrays := (arrays w1)(a \<mapsto> xs)\<rparr>) = seqs w \<and>
                 arrays (w1\<lparr>arrays := (arrays w1)(a \<mapsto> xs)\<rparr>) (s_tokens s) = Some ts \<and>
                 read_tokens this (w1\<lparr>arrays := (arrays w1)(a \<mapsto> xs)\<rparr>) = Inr ts) \<and>
           read_tokens this w = Inr ts \<and> read_tokens this w1 = Inr ts"
proof -
  let ?a = "next_ref w"
  let ?w1 = "w\<lparr>next_ref := Suc ?a, arrays := (arrays w)(?a \<mapsto> ts)\<rparr>"
  have t: "tokens this w = (Inr ?a, ?w1)"
    using s ts by (simp add: tokens_def)
  have fresh: "?a \<noteq> s_tokens t" if "seqs w that = Some t" for that t
    using wf_bound(2) [OF w that] by simp
  have s1: "seqs ?w1 this = Some s" using s by simp
  have s2: "seqs (?w1\<lparr>arrays := (arrays ?w1)(?a \<mapsto> xs)\<rparr>) this = Some s" for xs
    using s by simp
  have keep: "arrays ?w1 (s_tokens s) = Some ts"
    using fresh [OF s] ts by simp
  have keep2: "arrays (?w1\<lparr>arrays := (arrays ?w1)(?a \<mapsto> xs)\<rparr>) (s_tokens s) = Some ts" for xs
    using fresh [OF s] ts by simp
  have r0: "read_tokens this w = Inr ts"
    by (simp add: read_tokens_eq [OF s] ts)
  have r1: "read_tokens this ?w1 = Inr ts"
    unfolding read_tokens_eq [OF s1] using keep by simp
  have r2: "read_tokens this (?w1\<lparr>arrays := (arrays ?w1)(?a \<mapsto> xs)\<rparr>) = Inr ts" for xs
    unfolding read_tokens_eq [OF s2] using keep2 [of xs] by simp
  have "tokens this w = (Inr ?a, ?w1) \<and> arrays ?w1 ?a = Some ts \<and>
           (\<forall>that t. seqs w that = Some t \<longrightarrow> ?a \<noteq> s_tokens t) \<and>
           seqs ?w1 = seqs w \<and> arrays ?w1 (s_tokens s) = Some ts \<and>
           (\<forall>xs. seqs (?w1\<lparr>arrays := (arrays ?w1)(?a \<mapsto> xs)\<rparr>) = seqs w \<and>
                 arrays (?w1\<lparr>arrays := (arrays ?w1)(?a \<mapsto> xs)\<rparr>) (s_tokens s) = Some ts \<and>
                 read_tokens this (?w1\<lparr>arrays := (arrays ?w1)(?a \<mapsto> xs)\<rparr>) = Inr ts) \<and>
           read_tokens this w = Inr ts \<and> read_tokens this ?w1 = Inr ts"
    using t fresh keep keep2 r0 r1 r2 by simp
  then show ?thesis by blast
qed

theorem tokens_fresh_copy_witness:
  "fst (tokens 1 demo_two) = Inr 4 \<and>
   arrays (snd (tokens 1 demo_two)) 4 = Some [7, 8] \<and>
   arrays ((snd (tokens 1 demo_two))\<lparr>arrays := (arrays (snd (tokens 1 demo_two)))(4 \<mapsto> [])\<rparr>) 0
     = Some [7, 8] \<and>
   read_tokens 1 ((snd (tokens 1 demo_two))\<lparr>arrays := (arrays (snd (tokens 1 demo_two)))(4 \<mapsto> [])\<rparr>)
     = Inr [7, 8] \<and>
   read_tokens 1 (snd (tokens 1 demo_two)) = Inr [7, 8]"
proof -
  let ?s = "\<lparr>s_tokens = 0, s_promptSize = 3, s_logits = Some 3, s_messages = []\<rparr>"
  have s: "seqs demo_two 1 = Some ?s" by (simp add: demo_two_eq)
  have ts: "arrays demo_two (s_tokens ?s) = Some [7, 8]" by (simp add: demo_two_eq)
  from tokens_fresh_copy [OF wf_demo_two s ts]
  obtain a w1 where t: "tokens 1 demo_two = (Inr a, w1)" and c: "arrays w1 a = Some [7, 8]"
    and m: "\<And>xs. arrays (w1\<lparr>arrays := (arrays w1)(a \<mapsto> xs)\<rparr>) (s_tokens ?s) = Some [7, 8]"
           "\<And>xs. read_tokens 1 (w1\<lparr>arrays := (arrays w1)(a \<mapsto> xs)\<rparr>) = Inr [7, 8]"
    and r: "read_tokens 1 w1 = Inr [7, 8]"
    by blast
  have a: "a = 4" using t by (simp add: tokens_def demo_two_eq)
  from t c m [of "[]"] r show ?thesis unfolding a by simp
qed

section \<open>The no-op path of \<open>advance\<close>\<close>

text \<open>
  Claim C6. Let \<open>advance([t1, t2])\<close> succeed on a session and leave it active (its
  prompt size is not 0; a successful \<open>advance\<close> leaves it holding the claim). Then
  \<open>advance([], 0)\<close> returns without an error and leaves the whole world as it is:
  \<open>tokens\<close> reads the earlier history followed by \<open>t1, t2\<close> before and after it,
  and \<open>logits()\<close> returns the same result. More generally \<open>advance([], 0)\<close> changes
  nothing on any active session that holds the claim.
\<close>

theorem advance_empty_noop:
  assumes s: "seqs w this = Some s" and ts: "read_tokens this w = Inr ts"
    and adv: "advance pl this [t1, t2] 0 w = (Inr (), w1)"
    and s1: "seqs w1 this = Some s1" and p1: "s_promptSize s1 \<noteq> 0"
  shows "advance pl this [] 0 w1 = (Inr (), w1) \<and>
         read_tokens this w1 = Inr (ts @ [t1, t2]) \<and>
         read_tokens this (snd (advance pl this [] 0 w1)) = Inr (ts @ [t1, t2]) \<and>
         logits this (snd (advance pl this [] 0 w1)) = logits this w1 \<and>
         (s_promptSize s \<noteq> 0 \<and> window_ai_seq w = Some this \<longrightarrow>
            advance pl this [] 0 w = (Inr (), w))"
proof -
  note ok = advance_ok [OF adv s]
  from ok(2) s1 have tk: "s_tokens s1 = s_tokens s" by simp
  have noop: "advance pl this [] 0 w1 = (Inr (), w1)"
    by (rule advance_claimant_empty [OF s1 p1 ok(1)])
  from ts have "arrays w (s_tokens s) = Some ts"
    by (simp add: read_tokens_eq [OF s] split: option.splits)
  with ok(3) have "arrays w1 (s_tokens s1) = Some (ts @ [t1, t2])"
    by (simp add: tk)
  then have r: "read_tokens this w1 = Inr (ts @ [t1, t2])"
    by (simp add: read_tokens_eq [OF s1])
  have "advance pl this [] 0 w = (Inr (), w)"
    if "s_promptSize s \<noteq> 0" "window_ai_seq w = Some this"
    by (rule advance_claimant_empty [OF s that])
  with noop r show ?thesis by simp
qed

theorem advance_empty_noop_witness:
  "advance demo_pipeline 1 [] 0 demo_two = (Inr (), demo_two) \<and>
   advance demo_pipeline 1 [] 0 demo_primed = (Inr (), demo_primed) \<and>
   read_tokens 1 demo_two = Inr [7, 8] \<and>
   fst (logits 1 (snd (advance demo_pipeline 1 [] 0 demo_two))) = Inr [Fin 1, Fin 0] \<and>
   fst (logits 1 demo_two) = Inr [Fin 1, Fin 0]"
proof -
  let ?s = "\<lparr>s_tokens = 0, s_promptSize = 3, s_logits = Some 2, s_messages = []\<rparr>"
  let ?s1 = "\<lparr>s_tokens = 0, s_promptSize = 3, s_logits = Some 3, s_messages = []\<rparr>"
  have s: "seqs demo_primed 1 = Some ?s" by (simp add: demo_primed_eq)
  have ts: "read_tokens 1 demo_primed = Inr []"
    unfolding read_tokens_eq [OF s] by (simp add: demo_primed_eq)
  have adv: "advance demo_pipeline 1 [7, 8] 0 demo_primed = (Inr (), demo_two)"
    unfolding demo_two_def by (simp add: demo_primed_eq demo_defs)
  have s1: "seqs demo_two 1 = Some ?s1" by (simp add: demo_two_eq)
  have p1: "s_promptSize ?s1 \<noteq> 0" by simp
  have c: "s_promptSize ?s \<noteq> 0 \<and> window_ai_seq demo_primed = Some 1"
    by (simp add: demo_primed_eq)
  have lg: "fst (logits 1 demo_two) = Inr [Fin 1, Fin 0]"
    unfolding logits_eq [OF s1] by (simp add: demo_two_eq)
  from advance_empty_noop [OF s ts adv s1 p1] c lg show ?thesis by simp
qed

section \<open>\<open>destroy\<close>\<close>

text \<open>
  Claim C8. \<open>destroy()\<close> raises no error, and a second \<open>destroy()\<close> raises none
  either and changes nothing more. After it the session's \<open>NDArray\<close>, when it had one,
  is disposed of, the session has no logits, and the claim is cleared when the session
  held it (and left alone otherwise). A session created afterwards never gets the
  conflicting-session error from its first \<open>advance\<close>, and that \<open>advance\<close> takes the
  claim whenever the prefill returns logits.
\<close>

theorem destroy_idempotent:
  assumes "seqs w this = Some s"
  shows "\<exists>w1. destroy this w = (Inr (), w1) \<and> destroy this w1 = (Inr (), w1) \<and>
      ndarrays w1 = (case s_logits s of None \<Rightarrow> ndarrays w | Some r \<Rightarrow> (ndarrays w)(r := None)) \<and>
      seqs w1 = (seqs w)(this \<mapsto> s\<lparr>s_logits := None\<rparr>) \<and>
      window_ai_seq w1 = (if window_ai_seq w = Some this then None else window_ai_seq w) \<and>
      (\<forall>msgs toks bt.
          fst (advance pl (fst (createSequence msgs w1)) toks bt (snd (createSequence msgs w1)))
            \<noteq> Inl CannotAdvanceDifferent) \<and>
      (\<forall>msgs nd p. prefill pl msgs (pipe w1) = (Returned (Some nd), p) \<longrightarrow>
         (\<exists>w3. advance pl (fst (createSequence msgs w1)) [] 0 (snd (createSequence msgs w1))
                 = (Inr (), w3) \<and>
               window_ai_seq w3 = Some (fst (createSequence msgs w1))))"
proof -
  define w1 where "w1 = snd (destroy this w)"
  have d1: "destroy this w = (Inr (), w1)"
    by (simp add: w1_def destroy_eq [OF assms])
  have s1: "seqs w1 this = Some (s\<lparr>s_logits := None\<rparr>)"
    by (simp add: w1_def destroy_eq [OF assms])
  have d2: "destroy this w1 = (Inr (), w1)"
    by (simp add: destroy_eq [OF s1]) (simp add: w1_def destroy_eq [OF assms])
  have a: "ndarrays w1 = (case s_logits s of None \<Rightarrow> ndarrays w | Some r \<Rightarrow> (ndarrays w)(r := None))"
    and b: "seqs w1 = (seqs w)(this \<mapsto> s\<lparr>s_logits := None\<rparr>)"
    and c: "window_ai_seq w1 = (if window_ai_seq w = Some this then None else window_ai_seq w)"
    by (simp_all add: w1_def destroy_eq [OF assms])
  have e: "fst (advance pl (fst (createSequence msgs w1)) toks bt (snd (createSequence msgs w1)))
          \<noteq> Inl CannotAdvanceDifferent" for msgs toks bt
    by (rule advance_new_session) simp
  have f: "\<exists>w3. advance pl (fst (createSequence msgs w1)) [] 0 (snd (createSequence msgs w1))
                 = (Inr (), w3) \<and>
               window_ai_seq w3 = Some (fst (createSequence msgs w1))"
    if "prefill pl msgs (pipe w1) = (Returned (Some nd), p)" for msgs nd p
    by (rule prime_new_session [OF _ that]) simp
  from d1 d2 a b c e f show ?thesis by blast
qed

theorem destroy_idempotent_witness:
  "destroy 1 demo_two = (Inr (), demo_destroyed) \<and>
   destroy 1 demo_destroyed = (Inr (), demo_destroyed) \<and>
   ndarrays demo_two 3 \<noteq> None \<and> ndarrays demo_destroyed 3 = None \<and>
   window_ai_seq demo_two = Some 1 \<and> window_ai_seq demo_destroyed = None \<and>
   fst (advance demo_pipeline (fst (createSequence [] demo_destroyed)) [] 0
         (snd (createSequence [] demo_destroyed))) = Inr ()"
proof -
  let ?s = "\<lparr>s_tokens = 0, s_promptSize = 3, s_logits = Some 3, s_messages = []\<rparr>"
  have s: "seqs demo_two 1 = Some ?s" by (simp add: demo_two_eq)
  from destroy_idempotent [OF s, of demo_pipeline]
  obtain w1 where d1: "destroy 1 demo_two = (Inr (), w1)" and d2: "destroy 1 w1 = (Inr (), w1)"
    and n: "ndarrays w1 = (case s_logits ?s of None \<Rightarrow> ndarrays demo_two
                           | Some r \<Rightarrow> (ndarrays demo_two)(r := None))"
    and c: "window_ai_seq w1 = (if window_ai_seq demo_two = Some 1 then None
                                else window_ai_seq demo_two)"
    and f: "\<And>msgs nd p. prefill demo_pipeline msgs (pipe w1) = (Returned (Some nd), p) \<Longrightarrow>
         (\<exists>w3. advance demo_pipeline (fst (createSequence msgs w1)) [] 0 (snd (createSequence msgs w1))
                 = (Inr (), w3))"
    by blast
  from d1 have w1: "w1 = demo_destroyed" by (simp add: demo_destroyed_def)
  have p: "prefill demo_pipeline [] (pipe w1) =
             (Returned (Some \<lparr>nd_dtype = Float32, nd_data = [Fin 0, Fin 0]\<rparr>), 3)"
    by (simp add: demo_pipeline_def)
  from f [OF p] have "fst (advance demo_pipeline (fst (createSequence [] w1)) [] 0
         (snd (createSequence [] w1))) = Inr ()" by auto
  with d1 d2 n c show ?thesis unfolding w1 by (simp add: demo_two_eq)
qed

text \<open>
  Claim C5, as the code has it. There is no destroyed state: \<open>destroy()\<close> only drops
  the logits and the claim. After it \<open>logits()\<close> and \<open>sample()\<close> fail with the
  no-logits error, and \<open>advance\<close> fails with the conflicting-session error on a session
  that was primed; \<open>advance\<close> still primes a session that never was. The getters do not
  fail: \<open>tokens\<close> and \<open>tokensLeft\<close> return what they returned before, and
  \<open>promptSize\<close> fails only where it failed before, on a session that never was primed.
\<close>

theorem after_destroy:
  assumes s: "seqs w this = Some s" and ts: "arrays w (s_tokens s) = Some ts"
    and d: "destroy this w = (r, w1)"
  shows "r = Inr () \<and>
     logits this w1 = (Inl NoLogits, w1) \<and> sample pl this options w1 = (Inl NoLogits, w1) \<and>
     (s_promptSize s \<noteq> 0 \<longrightarrow> advance pl this toks bt w1 = (Inl CannotAdvanceDifferent, w1)) \<and>
     (s_promptSize s = 0 \<longrightarrow>
        (\<forall>nd p. prefill pl (s_messages s) (pipe w1) = (Returned (Some nd), p) \<longrightarrow>
           fst (advance pl this [] 0 w1) = Inr ())) \<and>
     read_tokens this w1 = Inr ts \<and>
     tokensLeft pl this w1 =
       (Inr (context_window_size pl - s_promptSize s - int (length ts)), w1) \<and>
     promptSize this w1 =
       (if s_promptSize s = 0 then Inl PromptSizeNotInitialized else Inr (s_promptSize s), w1)"
proof -
  let ?s1 = "s\<lparr>s_logits := None\<rparr>"
  from d have r: "r = Inr ()" and w1: "w1 = snd (destroy this w)"
    by (simp_all add: destroy_eq [OF s])
  have s1: "seqs w1 this = Some ?s1" and c: "window_ai_seq w1 \<noteq> Some this"
    and ar: "arrays w1 = arrays w"
    unfolding w1 by (simp_all add: destroy_eq [OF s])
  have l: "s_logits ?s1 = None" by simp
  note nl = no_logits [OF s1 l]
  have adv: "advance pl this toks bt w1 = (Inl CannotAdvanceDifferent, w1)" if "s_promptSize s \<noteq> 0"
    by (rule advance_displaced [OF s1 _ c]) (use that in simp)
  have pr: "fst (advance pl this [] 0 w1) = Inr ()"
    if "s_promptSize s = 0" "prefill pl (s_messages s) (pipe w1) = (Returned (Some nd), p)" for nd p
    using that s1
    by (simp add: advance_def prime_def new_ndarray_def set_seq_def dispose_def Let_def)
  have rt: "read_tokens this w1 = Inr ts"
    by (simp add: read_tokens_eq [OF s1] ar ts)
  have tl: "tokensLeft pl this w1 =
       (Inr (context_window_size pl - s_promptSize s - int (length ts)), w1)"
    using s1 ar ts by (simp add: tokensLeft_def maxTokens_def tokensSoFar_def)
  have ps: "promptSize this w1 =
       (if s_promptSize s = 0 then Inl PromptSizeNotInitialized else Inr (s_promptSize s), w1)"
    using s1 by (simp add: promptSize_def)
  from r nl adv pr rt tl ps show ?thesis by blast
qed

theorem after_destroy_witness:
  "logits 1 demo_destroyed = (Inl NoLogits, demo_destroyed) \<and>
   sample demo_pipeline 1 None demo_destroyed = (Inl NoLogits, demo_destroyed) \<and>
   advance demo_pipeline 1 [9] 0 demo_destroyed = (Inl CannotAdvanceDifferent, demo_destroyed) \<and>
   read_tokens 1 demo_destroyed = Inr [7, 8] \<and>
   tokensLeft demo_pipeline 1 demo_destroyed = (Inr 11, demo_destroyed) \<and>
   promptSize 1 demo_destroyed = (Inr 3, demo_destroyed) \<and>
   fst (advance demo_pipeline 1 [] 0 demo_abandoned) = Inr () \<and>
   promptSize 1 demo_abandoned = (Inl PromptSizeNotInitialized, demo_abandoned)"
proof -
  let ?s = "\<lparr>s_tokens = 0, s_promptSize = 3, s_logits = Some 3, s_messages = []\<rparr>"
  let ?t = "\<lparr>s_tokens = 0, s_promptSize = 0, s_logits = None, s_messages = []\<rparr>"
  have s: "seqs demo_two 1 = Some ?s" by (simp add: demo_two_eq)
  have ts: "arrays demo_two (s_tokens ?s) = Some [7, 8]" by (simp add: demo_two_eq)
  have d: "destroy 1 demo_two = (Inr (), demo_destroyed)"
    unfolding demo_destroyed_def destroy_eq [OF s] by simp
  have t: "seqs demo_fresh 1 = Some ?t" by (simp add: demo_fresh_eq)
  have tt: "arrays demo_fresh (s_tokens ?t) = Some []" by (simp add: demo_fresh_eq)
  have e: "destroy 1 demo_fresh = (Inr (), demo_abandoned)"
    unfolding demo_abandoned_def destroy_eq [OF t] by simp
  have p: "prefill demo_pipeline (s_messages ?t) (pipe demo_abandoned) =
             (Returned (Some \<lparr>nd_dtype = Float32, nd_data = [Fin 0, Fin 0]\<rparr>), 3)"
    by (simp add: demo_pipeline_def)
  note A = after_destroy [OF s ts d, of demo_pipeline None "[9]" 0]
  note B = after_destroy [OF t tt e, of demo_pipeline None "[]" 0]
  from B p have "fst (advance demo_pipeline 1 [] 0 demo_abandoned) = Inr ()" by simp
  moreover from B have "promptSize 1 demo_abandoned = (Inl PromptSizeNotInitialized, demo_abandoned)"
    by simp
  moreover from A have "logits 1 demo_destroyed = (Inl NoLogits, demo_destroyed) \<and>
   sample demo_pipeline 1 None demo_destroyed = (Inl NoLogits, demo_destroyed) \<and>
   advance demo_pipeline 1 [9] 0 demo_destroyed = (Inl CannotAdvanceDifferent, demo_destroyed) \<and>
   read_tokens 1 demo_destroyed = Inr [7, 8] \<and>
   tokensLeft demo_pipeline 1 demo_destroyed = (Inr 11, demo_destroyed) \<and>
   promptSize 1 demo_destroyed = (Inr 3, demo_destroyed)"
    by (simp add: demo_pipeline_def)
  ultimately show ?thesis by simp
qed

text \<open>
  The claim as stated fails: on the destroyed session of the example, \<open>tokens\<close>,
  \<open>tokensLeft\<close> and \<open>promptSize\<close> return values.
\<close>

theorem destroyed_session_still_answers:
  "fst (tokens 1 demo_destroyed) = Inr 4 \<and>
   read_tokens 1 demo_destroyed = Inr [7, 8] \<and>
   fst (tokensLeft demo_pipeline 1 demo_destroyed) = Inr 11 \<and>
   fst (promptSize 1 demo_destroyed) = Inr 3"
  by (simp add: demo_destroyed_eq tokens_def read_tokens_def tokensLeft_def maxTokens_def
      tokensSoFar_def promptSize_def demo_pipeline_def)

section \<open>\<open>advance\<close> with a positive \<open>backtrack\<close>\<close>

text \<open>
  On a primed session that holds the claim, \<open>advance\<close> with \<open>backtrack > 0\<close>
  splices the last \<open>backtrack\<close> tokens off the history and only then raises the
  backtracking error. The world it leaves is the world before the call with the session's
  array shortened, whatever \<open>appendTokens\<close> is: nothing is appended, and the logits
  stay those of the longer history. A primed session that has lost the claim fails on the
  claim check, which comes first, and nothing changes.
\<close>

lemma advance_backtrack_world:
  assumes "seqs w this = Some s" and "s_promptSize s \<noteq> 0" and "window_ai_seq w = Some this"
    and "backtrack > 0"
  shows "advance pl this toks backtrack w =
           (Inl BacktrackingNotImplemented, update_array (s_tokens s) (splice_last backtrack) w)"
  using assms by (simp add: advance_def)

lemma advance_backtrack_history:
  assumes "seqs w this = Some s" and "s_promptSize s \<noteq> 0" and "window_ai_seq w = Some this"
    and "backtrack > 0" and "arrays w (s_tokens s) = Some ts"
  shows "read_tokens this (snd (advance pl this toks backtrack w)) = Inr (splice_last backtrack ts)"
    and "fst (logits this (snd (advance pl this toks backtrack w))) = fst (logits this w)"
proof -
  define w1 where "w1 = update_array (s_tokens s) (splice_last backtrack) w"
  have adv: "snd (advance pl this toks backtrack w) = w1"
    unfolding w1_def by (simp add: advance_backtrack_world [OF assms(1-4)])
  have s1: "seqs w1 this = Some s" using assms(1) by (simp add: w1_def update_array_def)
  have a1: "arrays w1 (s_tokens s) = Some (splice_last backtrack ts)"
    using assms(5) by (simp add: w1_def update_array_def)
  have n1: "ndarrays w1 = ndarrays w" by (simp add: w1_def update_array_def)
  show "read_tokens this (snd (advance pl this toks backtrack w)) = Inr (splice_last backtrack ts)"
    unfolding adv by (simp add: read_tokens_eq [OF s1] a1)
  show "fst (logits this (snd (advance pl this toks backtrack w))) = fst (logits this w)"
    unfolding adv by (simp add: logits_eq [OF s1] logits_eq [OF assms(1)] n1 cong: option.case_cong)
qed

lemma advance_backtrack_displaced:
  assumes "seqs w this = Some s" and "s_promptSize s \<noteq> 0" and "window_ai_seq w \<noteq> Some this"
  shows "advance pl this toks backtrack w = (Inl CannotAdvanceDifferent, w)"
  using assms by (simp add: advance_def)

text \<open>
  Claim C1. The session of the example holds the claim and has the history 7, 8.
  \<open>advance([9], 1)\<close> fails with the backtracking error, as claimed, but the history is
  not what it was: the token 8 is gone, and \<open>logits()\<close> still returns the logits
  computed after 8.
\<close>

theorem advance_backtrack_truncates:
  "fst (advance demo_pipeline 1 [9] 1 demo_two) = Inl BacktrackingNotImplemented \<and>
   read_tokens 1 demo_two = Inr [7, 8] \<and>
   read_tokens 1 (snd (advance demo_pipeline 1 [9] 1 demo_two)) = Inr [7] \<and>
   fst (logits 1 demo_two) = Inr [Fin 1, Fin 0] \<and>
   fst (logits 1 (snd (advance demo_pipeline 1 [9] 1 demo_two))) = Inr [Fin 1, Fin 0]"
  by (simp add: demo_two_eq advance_def update_array_def splice_last_def read_tokens_def
      tokens_def logits_def)

section \<open>\<open>logits\<close> and \<open>sample\<close> on an unprimed session\<close>

text \<open>
  Claim C3. The interface documents that \<open>logits()\<close> and \<open>sample()\<close> call
  \<open>advance([])\<close> when the logits are not yet computed. The code does not: on the new
  session of the example both fail with the no-logits error and change nothing, although
  \<open>advance([])\<close> succeeds there and \<open>logits()\<close> succeeds after it.
\<close>

theorem logits_does_not_prime:
  "logits 1 demo_fresh = (Inl NoLogits, demo_fresh) \<and>
   sample demo_pipeline 1 None demo_fresh = (Inl NoLogits, demo_fresh) \<and>
   fst (advance demo_pipeline 1 [] 0 demo_fresh) = Inr () \<and>
   fst (logits 1 (snd (advance demo_pipeline 1 [] 0 demo_fresh))) = Inr [Fin 0, Fin 0]"
proof -
  have s: "seqs demo_fresh 1 = Some \<lparr>s_tokens = 0, s_promptSize = 0, s_logits = None, s_messages = []\<rparr>"
    by (simp add: demo_fresh_eq)
  have adv: "advance demo_pipeline 1 [] 0 demo_fresh = (Inr (), demo_primed)"
    unfolding demo_primed_def by (simp add: demo_fresh_eq demo_defs)
  have "fst (logits 1 demo_primed) = Inr [Fin 0, Fin 0]"
    by (simp add: demo_primed_eq logits_def)
  with no_logits(1) [OF s] no_logits(2) [OF s, of demo_pipeline None] adv show ?thesis by simp
qed

section \<open>Rounding\<close>

text \<open>
  Facts about rounding to binary64: the result has the sign of the exact value, a value
  of at least 1 is not rounded below 1, a value in the unit interval stays there, 0, 1
  and 2 are exact, a small term added to \<open>2 ^ 127\<close> is absorbed, and nothing above
  \<open>- 2 ^ 1023\<close> overflows to \<open>-Infinity\<close>.
\<close>

lemma rhe_floor_le: "\<lfloor>q\<rfloor> \<le> round_half_even q"
  by (simp add: round_half_even_def Let_def)

lemma rhe_le_ceiling: "round_half_even q \<le> \<lceil>q\<rceil>"
proof -
  have "\<lfloor>q\<rfloor> + 1 \<le> \<lceil>q\<rceil>" if "q - of_int \<lfloor>q\<rfloor> \<noteq> 0"
    using that by (simp add: ceiling_altdef)
  moreover have "\<lfloor>q\<rfloor> \<le> \<lceil>q\<rceil>" by (simp add: floor_le_ceiling)
  ultimately show ?thesis
    by (auto simp: round_half_even_def Let_def)
qed

lemma rhe_ge: "of_int k \<le> q \<Longrightarrow> k \<le> round_half_even q"
  using rhe_floor_le [of q] le_floor_iff [of k q] by linarith

lemma rhe_le: "q \<le> of_int k \<Longrightarrow> round_half_even q \<le> k"
  using rhe_le_ceiling [of q] ceiling_le_iff [of q k] by linarith

lemma rhe_near:
  assumes "of_int k \<le> q" and "q < of_int k + 1 / 2"
  shows "round_half_even q = k"
proof -
  from assms have "\<lfloor>q\<rfloor> = k" by (simp add: floor_eq_iff)
  with assms show ?thesis by (simp add: round_half_even_def Let_def)
qed

lemma rhe_int [simp]: "round_half_even (of_int k) = k"
  by (rule rhe_near) simp_all

lemma binary64_cases:
  assumes "r \<noteq> 0"
  obtains e u where "e = max \<lfloor>log 2 \<bar>r\<bar>\<rfloor> (- 1022)" and "u = 2 powr of_int (e - 52)" and "0 < u"
    and "binary64 r =
           (if 2 ^ 1024 \<le> \<bar>of_int (round_half_even (r / u)) * u\<bar>
            then (if 0 < r then PInf else NInf) else Fin (of_int (round_half_even (r / u)) * u))"
  using assms by (simp add: binary64_def round_float_def Let_def)

lemma binary64_zero [simp]: "binary64 0 = Fin 0"
  by (simp add: binary64_def round_float_def)

lemma binary32_zero [simp]: "binary32 0 = Fin 0"
  by (simp add: binary32_def round_float_def)

lemma binary64_nonneg:
  assumes "0 \<le> r"
  shows "nonneg_or_inf (binary64 r)"
proof (cases "r = 0")
  case True
  then show ?thesis by (simp add: nonneg_or_inf_def)
next
  case False
  from binary64_cases [OF False] obtain e u where u: "0 < u"
    and b: "binary64 r =
           (if 2 ^ 1024 \<le> \<bar>of_int (round_half_even (r / u)) * u\<bar>
            then (if 0 < r then PInf else NInf) else Fin (of_int (round_half_even (r / u)) * u))"
    by blast
  from assms u have "of_int 0 \<le> r / u" by simp
  then have "0 \<le> round_half_even (r / u)" by (rule rhe_ge)
  with u have "0 \<le> of_int (round_half_even (r / u)) * u" by simp
  with b assms False show ?thesis by (auto simp: nonneg_or_inf_def)
qed

lemma binary64_nonpos:
  assumes "r \<le> 0"
  shows "binary64 r = NInf \<or> (\<exists>y\<le>0. binary64 r = Fin y)"
proof (cases "r = 0")
  case True
  then show ?thesis by simp
next
  case False
  from binary64_cases [OF False] obtain e u where u: "0 < u"
    and b: "binary64 r =
           (if 2 ^ 1024 \<le> \<bar>of_int (round_half_even (r / u)) * u\<bar>
            then (if 0 < r then PInf else NInf) else Fin (of_int (round_half_even (r / u)) * u))"
    by blast
  from assms u have "r / u \<le> of_int 0" by (simp add: divide_nonpos_pos)
  then have "round_half_even (r / u) \<le> 0" by (rule rhe_le)
  with u have "of_int (round_half_even (r / u)) * u \<le> 0"
    by (simp add: mult_nonpos_nonneg)
  with b assms False show ?thesis by auto
qed

lemma floor_log2_bounds:
  assumes "0 < x"
  shows "2 powr of_int \<lfloor>log 2 x\<rfloor> \<le> x" and "x < 2 powr (of_int \<lfloor>log 2 x\<rfloor> + 1)"
  using floor_log_eq_powr_iff [of x 2 "\<lfloor>log 2 x\<rfloor>"] assms by simp_all

lemma ulp_scale: "(2::real) powr of_int e = 2 ^ 52 * 2 powr of_int (e - 52)"
  by (simp add: powr_diff)

lemma binary64_ge_one:
  assumes "1 \<le> r"
  shows "ge1_or_inf (binary64 r)"
proof -
  from assms have r0: "r \<noteq> 0" and rp: "0 < r" by simp_all
  from binary64_cases [OF r0] obtain e u where e: "e = max \<lfloor>log 2 \<bar>r\<bar>\<rfloor> (- 1022)"
    and ud: "u = 2 powr of_int (e - 52)" and u: "0 < u"
    and b: "binary64 r =
           (if 2 ^ 1024 \<le> \<bar>of_int (round_half_even (r / u)) * u\<bar>
            then (if 0 < r then PInf else NInf) else Fin (of_int (round_half_even (r / u)) * u))"
    by blast
  from assms have "0 \<le> log 2 r" by simp
  then have fl: "0 \<le> \<lfloor>log 2 r\<rfloor>" by simp
  have "max \<lfloor>log 2 r\<rfloor> (- 1022) = \<lfloor>log 2 r\<rfloor>"
    using fl by (intro max_absorb1) linarith
  with e rp have ee: "e = \<lfloor>log 2 r\<rfloor>" by (simp add: abs_of_pos)
  have le: "2 powr of_int e \<le> r"
    unfolding ee by (rule floor_log2_bounds(1) [OF rp])
  have sc: "2 powr of_int e = 2 ^ 52 * u"
    unfolding ud by (rule ulp_scale)
  with le u have "2 ^ 52 \<le> r / u" by (simp add: pos_le_divide_eq)
  then have "of_int (2 ^ 52) \<le> r / u" by simp
  then have "2 ^ 52 \<le> round_half_even (r / u)" by (rule rhe_ge)
  then have "(2::real) ^ 52 \<le> of_int (round_half_even (r / u))"
    by (metis of_int_le_iff of_int_numeral of_int_power)
  with u have "2 ^ 52 * u \<le> of_int (round_half_even (r / u)) * u"
    by (intro mult_right_mono) simp_all
  moreover have "1 \<le> 2 ^ 52 * u"
  proof -
    from fl ee have "0 \<le> e" by simp
    then have "(1::real) \<le> 2 powr of_int e" by (simp add: ge_one_powr_ge_zero)
    also have "\<dots> = 2 ^ 52 * u" by (rule sc)
    finally show ?thesis .
  qed
  ultimately have "1 \<le> of_int (round_half_even (r / u)) * u" by (rule order_trans [rotated])
  with b rp show ?thesis by (auto simp: ge1_or_inf_def)
qed

lemma binary64_one [simp]: "binary64 1 = Fin 1"
proof -
  have "round_half_even (2 ^ 52) = 2 ^ 52"
    using rhe_int [of "2 ^ 52"] by simp
  then show ?thesis
    by (simp add: binary64_def round_float_def Let_def powr_minus divide_inverse [symmetric])
qed

lemma binary64_two [simp]: "binary64 2 = Fin 2"
proof -
  have "round_half_even (2 ^ 52) = 2 ^ 52"
    using rhe_int [of "2 ^ 52"] by simp
  then show ?thesis
    by (simp add: binary64_def round_float_def Let_def powr_minus divide_inverse [symmetric])
qed





lemma conforming_rounded_math: "conforming rounded_math"
  by (simp add: conforming_def rounded_math_def binary64_nonneg)


lemma nonneg_or_inf_simps [simp]:
  "nonneg_or_inf PInf" "nonneg_or_inf (Fin y) \<longleftrightarrow> 0 \<le> y"
  "\<not> nonneg_or_inf NaN" "\<not> nonneg_or_inf NInf"
  by (simp_all add: nonneg_or_inf_def)

lemma ge1_or_inf_simps [simp]:
  "ge1_or_inf PInf" "ge1_or_inf (Fin y) \<longleftrightarrow> 1 \<le> y"
  "\<not> ge1_or_inf NaN" "\<not> ge1_or_inf NInf"
  by (simp_all add: ge1_or_inf_def)

lemma js_add_nonneg:
  assumes "nonneg_or_inf a" and "nonneg_or_inf b"
  shows "nonneg_or_inf (js_add a b)"
  using assms by (cases a; cases b) (simp_all add: binary64_nonneg)

lemma js_add_ge1_left:
  assumes "ge1_or_inf a" and "nonneg_or_inf b"
  shows "ge1_or_inf (js_add a b)"
  using assms by (cases a; cases b) (simp_all add: binary64_ge_one)

lemma js_add_ge1_right:
  assumes "nonneg_or_inf a" and "ge1_or_inf b"
  shows "ge1_or_inf (js_add a b)"
  using assms by (cases a; cases b) (simp_all add: binary64_ge_one)

lemma foldl_ge1_acc:
  assumes "ge1_or_inf a" and "\<forall>t\<in>set ts. nonneg_or_inf t"
  shows "ge1_or_inf (foldl js_add a ts)"
  using assms by (induction ts arbitrary: a) (simp_all add: js_add_ge1_left)

lemma foldl_ge1:
  assumes "nonneg_or_inf a" and "\<forall>t\<in>set ts. nonneg_or_inf t" and "Fin 1 \<in> set ts"
  shows "ge1_or_inf (foldl js_add a ts)"
  using assms
proof (induction ts arbitrary: a)
  case Nil
  then show ?case by simp
next
  case (Cons t ts)
  show ?case
  proof (cases "t = Fin 1")
    case True
    with Cons.prems(1) have "ge1_or_inf (js_add a t)" by (intro js_add_ge1_right) simp_all
    with Cons.prems(2) show ?thesis by (simp add: foldl_ge1_acc)
  next
    case False
    with Cons.prems have "Fin 1 \<in> set ts" and "nonneg_or_inf (js_add a t)"
      by (simp_all add: js_add_nonneg)
    with Cons.prems(2) show ?thesis by (simp add: Cons.IH)
  qed
qed

lemma term_nonneg:
  assumes "conforming m" and "x \<le> M"
  shows "nonneg_or_inf (js_exp m (js_sub (Fin x) (Fin M)))"
proof -
  from assms(2) have "x + - M \<le> 0" by simp
  from binary64_nonpos [OF this] assms(1) show ?thesis
    by (auto simp: js_sub_def conforming_def)
qed

lemma term_max: "js_exp m (js_sub (Fin M) (Fin M)) = Fin 1"
  by (simp add: js_sub_def)





text \<open>
  A positive value below \<open>2 ^ - 1075\<close>, less than half of the smallest binary64
  value, is rounded to 0; the exponential of \<open>- 2048\<close> is such a value.
\<close>

lemma binary64_underflow:
  assumes "0 \<le> r" and "r < 2 powr (- 1075)"
  shows "binary64 r = Fin 0"
proof (cases "r = 0")
  case True
  then show ?thesis by simp
next
  case False
  with assms have rp: "0 < r" by simp
  from binary64_cases [OF False] obtain e u where e: "e = max \<lfloor>log 2 \<bar>r\<bar>\<rfloor> (- 1022)"
    and ud: "u = 2 powr of_int (e - 52)" and u: "0 < u"
    and b: "binary64 r =
           (if 2 ^ 1024 \<le> \<bar>of_int (round_half_even (r / u)) * u\<bar>
            then (if 0 < r then PInf else NInf) else Fin (of_int (round_half_even (r / u)) * u))"
    by blast
  have "2 powr of_int \<lfloor>log 2 r\<rfloor> \<le> r" by (rule floor_log2_bounds(1) [OF rp])
  also note assms(2)
  finally have "of_int \<lfloor>log 2 r\<rfloor> < (- 1075 :: real)" by (simp only: powr_less_cancel_iff)
  then have "\<lfloor>log 2 r\<rfloor> < - 1022" by linarith
  with e rp have e: "e = - 1022" by (simp add: abs_of_pos)
  have "(2::real) powr (- 1075) = 2 powr (- 1074) / 2"
    using powr_add [of "2::real" "- 1" "- 1074"] by simp
  also have "\<dots> = u / 2" unfolding ud e by simp
  finally have "r < u / 2" using assms(2) by simp
  with u have "r / u < of_int 0 + 1 / 2" by (simp add: pos_divide_less_eq)
  moreover from rp u have "of_int 0 \<le> r / u" by simp
  ultimately have "round_half_even (r / u) = 0" by (intro rhe_near)
  with b show ?thesis by simp
qed

lemma exp_underflow: "exp (- 2048 :: real) < 2 powr (- 1075)"
proof -
  have "ln (2::real) \<le> 1" using ln_le_minus_one [of "2::real"] by simp
  then have "- 2048 < - 1075 * ln (2::real)" by simp
  then have "exp (- 2048 :: real) < exp (- 1075 * ln 2)" by (simp only: exp_less_cancel_iff)
  also have "\<dots> = 2 powr (- 1075)" by (simp add: powr_def)
  finally show ?thesis .
qed

lemma binary64_2048: "binary64 (- 2048) = Fin (- 2048)"
proof -
  have "(2048::real) = 2 powr 11" by simp
  then have "log 2 (2048::real) = 11" by (simp only: log_powr_cancel)
  then have fl: "\<lfloor>log 2 (2048::real)\<rfloor> = 11" by simp
  have "round_half_even (- (2 ^ 52)) = - (2 ^ 52)"
    using rhe_int [of "- (2 ^ 52)"] by simp
  then show ?thesis
    by (simp add: binary64_def round_float_def Let_def fl powr_minus divide_inverse [symmetric])
qed

section \<open>The log-softmax of \<open>logProbs\<close>\<close>

lemma isAllowed_bit:
  "isAllowed msk i \<longleftrightarrow> i div 32 < length msk \<and> bit (msk ! (i div 32)) (i mod 32)"
  by (simp add: isAllowed_def bit_iff_and_push_bit_not_eq_0)


lemma Max_absorb:
  assumes "finite K" and "y \<le> x"
  shows "Max (insert y (insert x K)) = Max (insert x K)"
proof -
  have "x \<le> Max (insert x K)" using assms(1) by simp
  with assms(2) have "max y (Max (insert x K)) = Max (insert x K)"
    by (simp add: max_absorb2)
  with assms(1) show ?thesis by simp
qed








lemma surprise_sums_foldl:
  "surprise_sums m msk c i l (a, b) =
     (foldl js_add a (map (\<lambda>x. js_exp m (js_sub x c)) l),
      foldl js_add b (map (\<lambda>x. js_exp m (js_sub x c)) (pick (masked_out msk) i l)))"
  by (induction l arbitrary: i a b) simp_all

lemma pick_none: "\<forall>k<length l. \<not> P (i + k) \<Longrightarrow> pick P i l = []"
proof (induction l arbitrary: i)
  case Nil
  then show ?case by simp
next
  case (Cons x l)
  from Cons.prems have "\<not> P i" by force
  moreover from Cons.prems have "\<forall>k<length l. \<not> P (Suc i + k)" by force
  ultimately show ?case by (simp add: Cons.IH)
qed


lemma js_add_NaN_right [simp]: "js_add a NaN = NaN"
  by (cases a) simp_all



lemma masked_demo:
  "\<not> masked_out (Some [1]) 0" "masked_out (Some [1]) (Suc 0)"
  "\<not> masked_out (Some [3]) 0" "\<not> masked_out (Some [3]) (Suc 0)"
  "masked_out (Some [0]) 0" "\<not> masked_out None i"
  by (simp_all add: masked_out_def isAllowed_def)






section \<open>The ratio of \<open>surprise\<close>\<close>

lemma surprise_max_Fin:
  "surprise_max (map Fin xs) (Fin y) = Fin (Max (set (y # xs)))"
proof (induction xs arbitrary: y)
  case Nil
  then show ?case by simp
next
  case (Cons x xs)
  show ?case
  proof (cases "y < x")
    case True
    then have "Max (insert y (insert x (set xs))) = Max (insert x (set xs))"
      by (intro Max_absorb) simp_all
    with True show ?thesis by (simp add: Cons.IH)
  next
    case False
    then have "Max (insert x (insert y (set xs))) = Max (insert y (set xs))"
      by (intro Max_absorb) simp_all
    with False show ?thesis by (simp add: Cons.IH insert_commute)
  qed
qed

lemma surprise_max_NInf:
  "xs \<noteq> [] \<Longrightarrow> surprise_max (map Fin xs) NInf = Fin (Max (set xs))"
  by (cases xs) (simp_all add: surprise_max_Fin)

text \<open>
  For a non-empty vector of finite logits, \<open>surprise\<close> subtracts the maximum logit
  and returns the binary64 sum of \<open>Math.exp (logit i - max)\<close> over all indices
  divided by the same sum over the masked-out indices.
\<close>

lemma surprise_float_ratio:
  fixes xs :: "real list"
  assumes ne: "xs \<noteq> []"
  shows "surprise_of m (map Fin xs) msk =
           js_div (js_sum (map (\<lambda>x. js_exp m (js_sub (Fin x) (Fin (Max (set xs))))) xs))
                  (js_sum (map (\<lambda>x. js_exp m (js_sub (Fin x) (Fin (Max (set xs)))))
                               (pick (masked_out msk) 0 xs)))"
proof -
  have pm: "pick P i (map f l) = map f (pick P i l)" for P i and f :: "real \<Rightarrow> jsnum" and l :: "real list"
    by (induction l arbitrary: i) simp_all
  show ?thesis
    by (simp add: surprise_of_def surprise_max_NInf [OF ne] surprise_sums_foldl js_sum_def pm
        comp_def Let_def)
qed

text \<open>
  The divisor can be 0 although the mask excludes an index: with the logits 0 and
  \<open>- 2048\<close> and the second index masked out, \<open>Math.exp\<close> underflows to 0 and the
  result is \<open>+Infinity\<close>.
\<close>

lemma surprise_underflow:
  "masked_out (Some [1]) 1 \<and> surprise_of rounded_math [Fin 0, Fin (- 2048)] (Some [1]) = PInf"
proof -
  have ex: "Math_exp rounded_math (- 2048) = Fin 0"
    unfolding rounded_math_def using binary64_underflow [OF _ exp_underflow] by simp
  show ?thesis
    by (simp add: surprise_of_def masked_demo js_sub_def ex binary64_2048)
qed

text \<open>
  Claim C4. The comment above \<open>surprise\<close> reads
  \<open>1 not surprised, 100 or more - very surprised\<close>, and the claim has the result 1
  when the mask excludes nothing. The code
  accumulates the divisor over the indices the mask does not allow, so with nothing
  excluded the divisor stays the literal 0, the dividend is at least 1, and the result is
  \<open>+Infinity\<close>: for every non-empty vector of finite logits and every mask, or no
  mask, that excludes no index of it.
\<close>

theorem surprise_nothing_excluded:
  fixes xs :: "real list"
  assumes cf: "conforming m" and ne: "xs \<noteq> []"
    and al: "\<forall>i<length xs. \<not> masked_out msk i"
  shows "surprise_of m (map Fin xs) msk = PInf"
proof -
  define M where "M = Max (set xs)"
  let ?t = "\<lambda>x. js_exp m (js_sub x (Fin M))"
  have mx: "surprise_max (map Fin xs) NInf = Fin M"
    unfolding M_def by (rule surprise_max_NInf [OF ne])
  from al have "\<forall>k<length (map Fin xs). \<not> masked_out msk (0 + k)" by simp
  from pick_none [OF this] have pk: "pick (masked_out msk) 0 (map Fin xs) = []" .
  have s: "surprise_of m (map Fin xs) msk = js_div (foldl js_add (Fin 0) (map ?t (map Fin xs))) (Fin 0)"
    by (simp add: surprise_of_def mx surprise_sums_foldl pk)
  have "\<forall>t\<in>set (map ?t (map Fin xs)). nonneg_or_inf t"
    using term_nonneg [OF cf] by (auto simp: M_def)
  moreover from ne have "M \<in> set xs" unfolding M_def by (intro Max_in) simp_all
  then have "Fin 1 \<in> set (map ?t (map Fin xs))"
    using term_max [of m M] by (force simp: image_iff)
  ultimately have "ge1_or_inf (foldl js_add (Fin 0) (map ?t (map Fin xs)))"
    by (intro foldl_ge1) simp_all
  then show ?thesis unfolding s
    by (cases "foldl js_add (Fin 0) (map ?t (map Fin xs))") simp_all
qed

theorem surprise_nothing_excluded_witness:
  "surprise_of rounded_math [Fin 0, Fin 0] (Some [3]) = PInf"
proof -
  have ne: "[0, 0 :: real] \<noteq> []" by simp
  have al: "\<forall>i<length [0, 0 :: real]. \<not> masked_out (Some [3]) i"
    using masked_demo by (auto simp: less_Suc_eq)
  from surprise_nothing_excluded [OF conforming_rounded_math ne al] show ?thesis by simp
qed

section \<open>The format \<open>tokenInfo\<close> emits\<close>

lemma tokenEntry_eq:
  "tokenEntry tok i =
     (if token_error tok i = Some (InvalidToken i) then Inl (InvalidToken i)
      else Inr (token_flagged tok i, token_bytes tok i))"
  by (simp add: tokenEntry_def token_error_def token_flagged_def token_bytes_def Let_def)

lemma tokenInfo_loop_ok:
  assumes "\<And>j. i \<le> j \<Longrightarrow> j < n \<Longrightarrow> token_error tok j = None"
  shows "tokenInfo_loop tok n i acc =
           Inr (acc @ concat (map (\<lambda>j. map unat (token_record tok j)) [i..<n]))"
  using assms
proof (induction tok n i acc rule: tokenInfo_loop.induct)
  case (1 tok nVocab i encodedTokenizer)
  show ?case
  proof (cases "i < nVocab")
    case False
    then show ?thesis by (simp add: tokenInfo_loop.simps)
  next
    case True
    from "1.prems" [of i] True have ne: "token_error tok i = None" by simp
    then have le: "\<not> 255 < length (token_bytes tok i)"
      by (simp add: token_error_def split: if_splits)
    have e: "tokenEntry tok i = Inr (token_flagged tok i, token_bytes tok i)"
      by (simp add: tokenEntry_eq ne)
    have ih: "tokenInfo_loop tok nVocab (Suc i)
                (encodedTokenizer @ [if token_flagged tok i then 0x40 else 0,
                   length (token_bytes tok i)] @ map unat (token_bytes tok i)) =
              Inr ((encodedTokenizer @ [if token_flagged tok i then 0x40 else 0,
                   length (token_bytes tok i)] @ map unat (token_bytes tok i)) @
                   concat (map (\<lambda>j. map unat (token_record tok j)) [Suc i..<nVocab]))"
      using le by (intro "1.IH" [OF True e refl]) (simp_all add: "1.prems")
    have len: "unat (of_nat (length (token_bytes tok i)) :: 8 word) = length (token_bytes tok i)"
      using le by (simp add: unat_of_nat)
    have u: "map unat (token_record tok i) =
             [if token_flagged tok i then 0x40 else 0, length (token_bytes tok i)] @
             map unat (token_bytes tok i)"
      by (simp add: token_record_def len)
    from True have up: "[i..<nVocab] = i # [Suc i..<nVocab]"
      by (simp add: upt_conv_Cons)
    show ?thesis
      by (subst tokenInfo_loop.simps) (use True e le ih in \<open>simp add: up u\<close>)
  qed
qed

lemma tokenInfo_loop_err:
  assumes "i \<le> k" and "k < n" and "token_error tok k = Some e"
    and "\<And>j. i \<le> j \<Longrightarrow> j < k \<Longrightarrow> token_error tok j = None"
  shows "tokenInfo_loop tok n i acc = Inl e"
  using assms
proof (induction tok n i acc rule: tokenInfo_loop.induct)
  case (1 tok nVocab i encodedTokenizer)
  from "1.prems" have lt: "i < nVocab" by simp
  show ?case
  proof (cases "i = k")
    case True
    with "1.prems"(3) have "tokenEntry tok i = Inl e \<or>
        (tokenEntry tok i = Inr (token_flagged tok i, token_bytes tok i) \<and>
         255 < length (token_bytes tok i) \<and> e = TokenTooLong i)"
      by (auto simp: tokenEntry_eq token_error_def split: if_splits)
    then show ?thesis
      by (subst tokenInfo_loop.simps) (use lt in auto)
  next
    case False
    with "1.prems" have ik: "Suc i \<le> k" by simp
    from "1.prems"(4) [of i] False "1.prems"(1) have ne: "token_error tok i = None" by simp
    then have le: "\<not> 255 < length (token_bytes tok i)"
      by (simp add: token_error_def split: if_splits)
    have e: "tokenEntry tok i = Inr (token_flagged tok i, token_bytes tok i)"
      by (simp add: tokenEntry_eq ne)
    have ih: "tokenInfo_loop tok nVocab (Suc i)
                (encodedTokenizer @ [if token_flagged tok i then 0x40 else 0,
                   length (token_bytes tok i)] @ map unat (token_bytes tok i)) = Inl e"
      using le by (intro "1.IH" [OF lt e refl _ ik "1.prems"(2,3)]) (simp_all add: "1.prems")
    show ?thesis
      by (subst tokenInfo_loop.simps) (use lt e le ih in simp)
  qed
qed

lemma map_of_nat_unat: "map (of_nat \<circ> unat) (bs :: 8 word list) = bs"
  by (induction bs) simp_all

lemma tokenInfo_ok:
  assumes "\<And>i. i < getVocabSize tok \<Longrightarrow> token_error tok i = None"
  shows "tokenInfo tok = Inr (concat (map (token_record tok) [0..<getVocabSize tok]))"
proof -
  have "map of_nat (concat (map (\<lambda>j. map unat (token_record tok j)) [0..<n])) =
        concat (map (token_record tok) [0..<n])" for n
    by (induction n) (simp_all add: map_of_nat_unat)
  then show ?thesis
    by (simp add: tokenInfo_def tokenInfo_loop_ok [OF assms])
qed

lemma tokenInfo_err:
  assumes "k < getVocabSize tok" and "token_error tok k = Some e"
    and "\<And>j. j < k \<Longrightarrow> token_error tok j = None"
  shows "tokenInfo tok = Inl e"
  by (simp add: tokenInfo_def tokenInfo_loop_err [OF _ assms])

lemma tokenInfo_fails:
  assumes "i < getVocabSize tok" and "token_error tok i \<noteq> None"
  shows "\<exists>e. tokenInfo tok = Inl e"
proof -
  let ?P = "\<lambda>k. k < getVocabSize tok \<and> token_error tok k \<noteq> None"
  define k where "k = (LEAST k. ?P k)"
  from assms have "?P i" by simp
  then have k: "?P k" unfolding k_def by (rule LeastI)
  have "token_error tok j = None" if "j < k" for j
  proof (rule ccontr)
    assume "token_error tok j \<noteq> None"
    with that k have "?P j" by simp
    then have "k \<le> j" unfolding k_def by (rule Least_le)
    with that show False by simp
  qed
  with k tokenInfo_err [of k tok] show ?thesis by auto
qed

text \<open>
  What \<open>tokenInfo\<close> emits. When no token raises an error, it returns the records of
  the vocabulary ids \<open>0 .. nVocab - 1\<close> in increasing order, each made of one flags
  byte, one byte that is the number of the token's bytes, and these bytes. The first
  token that raises an error decides the result; a token of more than 255 bytes raises
  one, so \<open>tokenInfo\<close> fails whenever there is such a token. Bit \<open>0x40\<close> of the
  flags byte is set iff the loop body flags the token; for a token whose text has no
  U+FFFD in it, that is iff the text is a special string.
\<close>

lemma tokenInfo_format:
  "((\<forall>i<getVocabSize tok. token_error tok i = None) \<longrightarrow>
      tokenInfo tok = Inr (concat (map (token_record tok) [0..<getVocabSize tok]))) \<and>
   (\<forall>k e. k < getVocabSize tok \<and> token_error tok k = Some e \<and>
          (\<forall>j<k. token_error tok j = None) \<longrightarrow> tokenInfo tok = Inl e) \<and>
   (\<forall>i<getVocabSize tok. 255 < length (token_bytes tok i) \<longrightarrow> (\<exists>e. tokenInfo tok = Inl e)) \<and>
   (\<forall>i. token_error tok i = None \<longrightarrow>
        tokenEntry tok i = Inr (token_flagged tok i, token_bytes tok i) \<and>
        unat (token_record tok i ! 1) = length (token_bytes tok i) \<and>
        (token_record tok i ! 0 AND 0x40 \<noteq> 0 \<longleftrightarrow> token_flagged tok i))"
proof -
  have 1: "tokenInfo tok = Inr (concat (map (token_record tok) [0..<getVocabSize tok]))"
    if "\<forall>i<getVocabSize tok. token_error tok i = None"
    using that by (intro tokenInfo_ok) simp
  have 2: "tokenInfo tok = Inl e"
    if "k < getVocabSize tok \<and> token_error tok k = Some e \<and> (\<forall>j<k. token_error tok j = None)"
    for k e
    using that by (intro tokenInfo_err [of k]) simp_all
  have 3: "\<exists>e. tokenInfo tok = Inl e"
    if "i < getVocabSize tok" "255 < length (token_bytes tok i)" for i
    using that by (intro tokenInfo_fails [of i]) (simp_all add: token_error_def)
  have 4: "tokenEntry tok i = Inr (token_flagged tok i, token_bytes tok i) \<and>
        unat (token_record tok i ! 1) = length (token_bytes tok i) \<and>
        (token_record tok i ! 0 AND 0x40 \<noteq> 0 \<longleftrightarrow> token_flagged tok i)"
    if "token_error tok i = None" for i
  proof -
    from that have le: "\<not> 255 < length (token_bytes tok i)"
      by (simp add: token_error_def split: if_splits)
    then have "unat (of_nat (length (token_bytes tok i)) :: 8 word) = length (token_bytes tok i)"
      by (simp add: unat_of_nat)
    then show ?thesis
      using that by (simp add: tokenEntry_eq token_record_def)
  qed
  from 1 2 3 4 show ?thesis by blast
qed

lemma demo_tokenizer_text:
  "tokenText demo_tokenizer 0 = lit ''<s>''"
  "tokenText demo_tokenizer 1 = [0xFFFD]"
  "tokenText demo_tokenizer (Suc 0) = [0xFFFD]"
  "tokenText demo_tokenizer 2 = lit ''ab''"
  by (simp_all add: tokenText_def tokPref_def demo_tokenizer_def toInt32_def)

lemma utf8_encode_ascii:
  "\<forall>u\<in>set s. unat u < 0x80 \<Longrightarrow> length (utf8_encode s) = length s"
  by (induction s rule: utf8_encode.induct) (auto simp: utf8_unit_def)

lemma tokenInfo_examples:
  "tokenInfo demo_tokenizer = Inr [0x40, 3, 60, 115, 62, 0, 1, 10, 0, 2, 97, 98] \<and>
   tokenInfo long_tokenizer = Inl (TokenTooLong 1)"
proof -
  have sp: "token_flagged demo_tokenizer 0" "\<not> token_flagged demo_tokenizer (Suc 0)"
           "\<not> token_flagged demo_tokenizer 2"
    by (simp_all add: token_flagged_def demo_tokenizer_text isSpecialToken_def lit_def
        startsWith_def endsWith_def includes_char_def REPLACEMENT_CHARACTER_def)
  have by0: "token_bytes demo_tokenizer 0 = [60, 115, 62]"
    and by2: "token_bytes demo_tokenizer 2 = [97, 98]"
    by (simp_all add: token_bytes_def demo_tokenizer_text lit_def includes_char_def
        REPLACEMENT_CHARACTER_def utf8_unit_def)
  have id1: "idToToken demo_tokenizer 1 = lit ''<0x0A>''" "idToToken demo_tokenizer 0 = lit ''<s>''"
     "idToToken demo_tokenizer 2 = lit ''ab''"
    by (simp_all add: demo_tokenizer_def)
  have by1: "token_bytes demo_tokenizer (Suc 0) = [10]"
    by (simp add: token_bytes_def demo_tokenizer_text id1 lit_def includes_char_def
        REPLACEMENT_CHARACTER_def startsWith_def parseInt16_def isWhiteSpace_def hexDigit_def
        round53_def toUint8_def Let_def)
  have ok: "\<forall>i<getVocabSize demo_tokenizer. token_error demo_tokenizer i = None"
  proof -
    have "token_error demo_tokenizer 0 = None" "token_error demo_tokenizer (Suc 0) = None"
      "token_error demo_tokenizer 2 = None"
      by (simp_all add: token_error_def by0 by1 by2 demo_tokenizer_text id1 lit_def
          includes_char_def REPLACEMENT_CHARACTER_def startsWith_def)
    moreover have "getVocabSize demo_tokenizer = 3" by (simp add: demo_tokenizer_def)
    ultimately show ?thesis by (auto simp: less_Suc_eq numeral_3_eq_3 numeral_2_eq_2)
  qed
  have n: "[0..<getVocabSize demo_tokenizer] = [0, Suc 0, 2]"
    by (simp add: demo_tokenizer_def upt_conv_Cons)
  from tokenInfo_format [of demo_tokenizer, THEN conjunct1, THEN mp, OF ok]
  have demo: "tokenInfo demo_tokenizer = Inr [0x40, 3, 60, 115, 62, 0, 1, 10, 0, 2, 97, 98]"
    by (simp add: n token_record_def sp by0 by1 by2)

  have t0: "tokenText long_tokenizer 0 = [0x61]"
    and t1: "tokenText long_tokenizer (Suc 0) = replicate 256 0x61"
    by (simp_all add: tokenText_def tokPref_def long_tokenizer_def toInt32_def lit_def)
  have n0: "\<not> includes_char (tokenText long_tokenizer 0) REPLACEMENT_CHARACTER"
    and n1: "\<not> includes_char (tokenText long_tokenizer (Suc 0)) REPLACEMENT_CHARACTER"
    by (simp_all add: t0 t1 includes_char_def REPLACEMENT_CHARACTER_def)
  have "length (utf8_encode (replicate 256 (0x61 :: 16 word))) = 256"
    by (subst utf8_encode_ascii) simp_all
  then have l1: "length (token_bytes long_tokenizer (Suc 0)) = 256"
    using n1 by (simp add: token_bytes_def t1)
  have l0: "token_bytes long_tokenizer 0 = [0x61]"
    using n0 by (simp add: token_bytes_def t0 utf8_unit_def)
  have e1: "token_error long_tokenizer (Suc 0) = Some (TokenTooLong 1)"
    using n1 by (simp add: token_error_def l1)
  have e0: "\<forall>j<Suc 0. token_error long_tokenizer j = None"
    using n0 by (simp add: token_error_def l0)
  have k: "Suc 0 < getVocabSize long_tokenizer" by (simp add: long_tokenizer_def)
  from tokenInfo_format [of long_tokenizer, THEN conjunct2, THEN conjunct1, rule_format,
      OF conjI [OF k conjI [OF e1 e0]]]
  have long: "tokenInfo long_tokenizer = Inl (TokenTooLong 1)" .
  from demo long show ?thesis ..
qed

lemma token_flagged_plain:
  assumes "\<not> includes_char (tokenText tok i) REPLACEMENT_CHARACTER"
  shows "token_flagged tok i \<longleftrightarrow> isSpecialToken (tokenText tok i)"
  using assms by (simp add: token_flagged_def)

text \<open>
  Claim C9. The order of the records, the length byte, the bytes and the failure past 255
  bytes are as claimed. The flag is not: the only token of the second example tokenizer
  has the text and the name \<open><|U+FFFD|>\<close>, a special string, and its flags byte is 0.
  The loop body takes the branch \<open>id == s\<close>, which encodes the text as the last
  branch does but, unlike the last branch and unlike \<open>tokenBytes\<close>, does not call
  \<open>isSpecialToken\<close>.
\<close>

theorem tokenInfo_special_with_replacement:
  "isSpecialToken (tokenText odd_tokenizer 0) \<and>
   tokenInfo odd_tokenizer = Inr [0, 7, 60, 124, 0xEF, 0xBF, 0xBD, 124, 62]"
proof -
  have t: "tokenText odd_tokenizer 0 = [60, 124, 0xFFFD, 124, 62]"
    and i: "idToToken odd_tokenizer 0 = [60, 124, 0xFFFD, 124, 62]"
    by (simp_all add: tokenText_def tokPref_def odd_tokenizer_def toInt32_def lit_def)
  have sp: "isSpecialToken (tokenText odd_tokenizer 0)"
    by (simp add: t isSpecialToken_def startsWith_def endsWith_def lit_def)
  have e: "tokenEntry odd_tokenizer 0 = Inr (False, [60, 124, 0xEF, 0xBF, 0xBD, 124, 62])"
    by (simp add: tokenEntry_def t i includes_char_def REPLACEMENT_CHARACTER_def startsWith_def
        lit_def utf8_unit_def)
  have "tokenInfo_loop odd_tokenizer 1 0 [] = Inr [0, 7, 60, 124, 0xEF, 0xBF, 0xBD, 124, 62]"
    by (subst tokenInfo_loop.simps) (simp add: e tokenInfo_loop.simps [of _ _ "Suc 0"])
  then have "tokenInfo odd_tokenizer = Inr [0, 7, 60, 124, 0xEF, 0xBF, 0xBD, 124, 62]"
    by (simp add: tokenInfo_def odd_tokenizer_def)
  with sp show ?thesis ..
qed

end
